theory Spec2Isabelle
  imports Main "HOL-Library.Sublist"
begin

section \<open>JavaScript values, strings and errors\<close>

text \<open>
  A JavaScript string is modelled as a HOL \<open>string\<close>: a list of code units, each below
  256 (the Latin-1 range of UTF-16). The declared type of a token is \<open>string\<close>, but the
  token of an inbound message is read from \<open>event.data.token\<close>, which is untyped at run
  time, so a token is a \<open>jsval\<close>: a string, or \<open>undefined\<close>, \<open>null\<close> or a boolean that a
  message may carry in its place (numbers and objects are left out).
\<close>

datatype jsval = JUndefined | JNull | JBool bool | JStr string

text \<open>JavaScript's truthiness, the test of \<open>if (token)\<close>.\<close>

fun truthy :: "jsval \<Rightarrow> bool" where
  "truthy JUndefined = False"
| "truthy JNull = False"
| "truthy (JBool b) = b"
| "truthy (JStr s) = (s \<noteq> [])"

text \<open>
  Every rejection of the service is \<open>new Error(message)\<close>; the callers read
  \<open>err.message\<close>. (Their other branch, for a value that is no \<open>Error\<close>, is never taken.)
\<close>

datatype js_error = Error (err_message: string)

section \<open>The profile store: \<open>src/services/supabaseService.ts\<close>\<close>

text \<open>
  \<open>UserProfile\<close> is declared in \<open>types.ts\<close>: an object with the fields \<open>id\<close> and
  \<open>username\<close>, both strings. The field \<open>id\<close> is named \<open>id_str\<close> here, since \<open>id\<close> is
  HOL's identity function. No code of the repository assigns to a field of a profile, so
  profiles are values.
\<close>

record UserProfile =
  id_str :: string
  username :: string

text \<open>
  Arrays are objects on the heap: \<open>arrays\<close> maps an address to the contents of the array
  that lives there, \<open>next_addr\<close> is the first address not yet allocated. The module
  variable \<open>mockProfiles\<close> holds the address of the current store array, and
  \<open>isInitialized\<close> is the private field of the singleton \<open>SupabaseService\<close>.
\<close>

type_synonym addr = nat

record service_state =
  isInitialized :: bool
  mockProfiles :: addr
  arrays :: "addr \<Rightarrow> UserProfile list"
  next_addr :: addr

text \<open>A new array (an array literal, a spread copy, the result of \<open>filter\<close>).\<close>

definition alloc :: "UserProfile list \<Rightarrow> service_state \<Rightarrow> addr \<times> service_state" where
  "alloc xs s =
     (next_addr s, s\<lparr>arrays := (arrays s)(next_addr s := xs), next_addr := Suc (next_addr s)\<rparr>)"

text \<open>The contents of the store: the array \<open>mockProfiles\<close> points to.\<close>

definition profiles :: "service_state \<Rightarrow> UserProfile list" where
  "profiles s = arrays s (mockProfiles s)"

text \<open>
  The mock database at module load. \<open>uuidv4\<close> comes from the package \<open>uuid\<close>; the
  identifier its k-th call returns is the parameter \<open>uuid k\<close>.
\<close>

definition initial_profiles :: "(nat \<Rightarrow> string) \<Rightarrow> UserProfile list" where
  "initial_profiles uuid =
     [\<lparr>id_str = uuid 0, username = ''alice@example.com''\<rparr>,
      \<lparr>id_str = uuid 1, username = ''bob@example.com''\<rparr>,
      \<lparr>id_str = uuid 2, username = ''charlie@example.com''\<rparr>,
      \<lparr>id_str = uuid 3, username = ''diana@example.com''\<rparr>,
      \<lparr>id_str = uuid 4, username = ''edward@example.com''\<rparr>]"

definition initial_service :: "(nat \<Rightarrow> string) \<Rightarrow> service_state" where
  "initial_service uuid =
     \<lparr>isInitialized = False, mockProfiles = 0,
      arrays = (\<lambda>_. [])(0 := initial_profiles uuid), next_addr = 1\<rparr>"

text \<open>
  Each method of the service returns a promise that settles inside a \<open>setTimeout\<close>
  callback. The three definitions below are the bodies of these callbacks: what happens,
  on the state of that moment, when the simulated network delay has elapsed. \<open>Inl\<close> is
  \<open>reject\<close>, \<open>Inr\<close> is \<open>resolve\<close>.
\<close>

definition initialize :: "jsval \<Rightarrow> service_state \<Rightarrow> (js_error + unit) \<times> service_state" where
  "initialize token s =
     (if truthy token then (Inr (), s\<lparr>isInitialized := True\<rparr>)
      else (Inl (Error ''Authentication token is missing.''), s))"

definition getUsers :: "service_state \<Rightarrow> (js_error + addr) \<times> service_state" where
  "getUsers s =
     (if \<not> isInitialized s then (Inl (Error ''Supabase client not initialized.''), s)
      else (case alloc (profiles s) s of (a, s') \<Rightarrow> (Inr a, s')))"

definition deleteUser :: "string \<Rightarrow> service_state \<Rightarrow> (js_error + unit) \<times> service_state" where
  "deleteUser userId s =
     (if \<not> isInitialized s then (Inl (Error ''Supabase client not initialized.''), s)
      else
        (let initialLength = length (profiles s) in
         (case alloc (filter (\<lambda>p. id_str p \<noteq> userId) (profiles s)) s of
            (a, s1) \<Rightarrow>
              (let s2 = s1\<lparr>mockProfiles := a\<rparr> in
               if length (profiles s2) < initialLength then (Inr (), s2)
               else (Inl (Error (''User with ID '' @ userId @ '' not found.'')), s2)))))"

text \<open>Sequences of operations on the service, each run to completion.\<close>

datatype service_op = OpInitialize jsval | OpGetUsers | OpDeleteUser string

fun exec_op :: "service_op \<Rightarrow> service_state \<Rightarrow> service_state" where
  "exec_op (OpInitialize token) s = snd (initialize token s)"
| "exec_op OpGetUsers s = snd (getUsers s)"
| "exec_op (OpDeleteUser userId) s = snd (deleteUser userId s)"

fun exec_ops :: "service_op list \<Rightarrow> service_state \<Rightarrow> service_state" where
  "exec_ops [] s = s"
| "exec_ops (x # xs) s = exec_ops xs (exec_op x s)"

text \<open>
  Calls that overlap. A caller need not await a promise before the next call, so a call
  is a pair of the time it is made and the operation. Its callback runs when its timer
  fires: 500 ms later for \<open>initialize\<close>, 800 ms for \<open>getUsers\<close>, 600 ms for \<open>deleteUser\<close>.
  \<open>overlapping calls s\<close> runs the callbacks of the calls (listed in the order they are
  made) in the order their timers fire, timers due at the same time in the order they
  were set, and records for each call how its promise settles and the contents of the
  store right after.
\<close>

type_synonym timed_call = "nat \<times> service_op"

fun delay_of :: "service_op \<Rightarrow> nat" where
  "delay_of (OpInitialize token) = 500"
| "delay_of OpGetUsers = 800"
| "delay_of (OpDeleteUser userId) = 600"

definition settles_at :: "timed_call \<Rightarrow> nat" where
  "settles_at c = fst c + delay_of (snd c)"

datatype outcome = Rejected js_error | Resolved | ResolvedUsers "UserProfile list"

fun settle_call :: "service_op \<Rightarrow> service_state \<Rightarrow> outcome \<times> service_state" where
  "settle_call (OpInitialize token) s =
     (case initialize token s of
        (Inl err, s') \<Rightarrow> (Rejected err, s')
      | (Inr _, s') \<Rightarrow> (Resolved, s'))"
| "settle_call OpGetUsers s =
     (case getUsers s of
        (Inl err, s') \<Rightarrow> (Rejected err, s')
      | (Inr a, s') \<Rightarrow> (ResolvedUsers (arrays s' a), s'))"
| "settle_call (OpDeleteUser userId) s =
     (case deleteUser userId s of
        (Inl err, s') \<Rightarrow> (Rejected err, s')
      | (Inr _, s') \<Rightarrow> (Resolved, s'))"

fun settle_calls ::
  "timed_call list \<Rightarrow> service_state
     \<Rightarrow> (timed_call \<times> outcome \<times> UserProfile list) list \<times> service_state" where
  "settle_calls [] s = ([], s)"
| "settle_calls (c # cs) s =
     (case settle_call (snd c) s of
        (r, s1) \<Rightarrow>
          (case settle_calls cs s1 of
             (rs, s2) \<Rightarrow> ((c, r, profiles s1) # rs, s2)))"

definition overlapping ::
  "timed_call list \<Rightarrow> service_state
     \<Rightarrow> (timed_call \<times> outcome \<times> UserProfile list) list \<times> service_state" where
  "overlapping calls s = settle_calls (sort_key settles_at calls) s"

text \<open>
  A call opens the gate when it is an \<open>initialize\<close> with a truthy token. \<open>closed_outcome\<close>
  is how a call settles on a closed gate.
\<close>

fun opens :: "timed_call \<Rightarrow> bool" where
  "opens (t, OpInitialize token) = truthy token"
| "opens (t, OpGetUsers) = False"
| "opens (t, OpDeleteUser userId) = False"

fun closed_outcome :: "service_op \<Rightarrow> outcome" where
  "closed_outcome (OpInitialize token) = Rejected (Error ''Authentication token is missing.'')"
| "closed_outcome OpGetUsers = Rejected (Error ''Supabase client not initialized.'')"
| "closed_outcome (OpDeleteUser userId) = Rejected (Error ''Supabase client not initialized.'')"

text \<open>
  The store is well formed when its array has been allocated and no two of its records
  share an identifier (the identifiers are UUIDs).
\<close>

definition wf_store :: "service_state \<Rightarrow> bool" where
  "wf_store s = (mockProfiles s < next_addr s \<and> distinct (map id_str (profiles s)))"

section \<open>The list filter of the user list view\<close>

text \<open>
  \<open>String.prototype.toLowerCase\<close> on the code units below 256: the letters \<open>A\<close> to \<open>Z\<close>
  and the capital letters of Latin-1 (192 to 222, but not the multiplication sign 215)
  move up by 32, every other code unit stays.
\<close>

definition toLowerCase_char :: "char \<Rightarrow> char" where
  "toLowerCase_char c =
     (let n = (of_char c :: nat) in
      if (65 \<le> n \<and> n \<le> 90) \<or> (192 \<le> n \<and> n \<le> 222 \<and> n \<noteq> 215)
      then char_of (n + 32) else c)"

definition toLowerCase :: "string \<Rightarrow> string" where
  "toLowerCase s = map toLowerCase_char s"

text \<open>\<open>String.prototype.includes\<close>: the search string occurs at some position.\<close>

fun includes_str :: "string \<Rightarrow> string \<Rightarrow> bool" where
  "includes_str [] t = (t = [])"
| "includes_str (c # cs) t = (prefix t (c # cs) \<or> includes_str cs t)"

text \<open>
  The callback and the \<open>filter\<close> of \<open>filteredUsers\<close>, on the contents of the array:
  \<open>users.filter(user => user.username.toLowerCase().includes(searchTerm.toLowerCase()))\<close>.
\<close>

definition user_matches :: "string \<Rightarrow> UserProfile \<Rightarrow> bool" where
  "user_matches searchTerm user = includes_str (toLowerCase (username user)) (toLowerCase searchTerm)"

definition filter_users :: "UserProfile list \<Rightarrow> string \<Rightarrow> UserProfile list" where
  "filter_users us searchTerm = filter (user_matches searchTerm) us"

text \<open>
  The words of the specification, to compare the code with: a profile matches when some
  part of its username equals the term up to the case of the letters.
\<close>

definition ci_substring_match :: "string \<Rightarrow> string \<Rightarrow> bool" where
  "ci_substring_match searchTerm name =
     (\<exists>before part after. name = before @ part @ after
        \<and> toLowerCase part = toLowerCase searchTerm)"

section \<open>The component \<open>App\<close> (the variant with search, modal and toast)\<close>

datatype toast_type = ToastSuccess | ToastError

record ToastState =
  toast_message :: string
  toast_type :: toast_type

text \<open>What the page does that its surroundings can see, in the order it happens.\<close>

datatype parent_message = APP_LOADED | USER_DELETED string

datatype out_event =
    PostMessage parent_message
  | CallInitialize jsval
  | CallGetUsers
  | CallDeleteUser string
  | ConsoleLog string
  | ConsoleWarn string
  | ConsoleError string

text \<open>
  A pending timer and what runs when it fires. \<open>InitTimeout c\<close> is the fallback timer of
  the effect, \<open>c\<close> the value of \<open>isInitialized\<close> its closure has captured. The other three
  are the timers inside the service's promises; with each, the rest of the \<open>async\<close>
  function that awaits the promise runs in the same turn of the event loop
  (\<open>DeleteUserSettles u\<close> carries the \<open>userToDelete\<close> captured by \<open>handleConfirmDelete\<close>).
\<close>

datatype task =
    InitTimeout bool
  | InitializeSettles jsval
  | GetUsersSettles
  | DeleteUserSettles UserProfile

record timer =
  timer_id :: nat
  due :: nat
  task :: task

text \<open>
  The state of the page: the seven \<open>useState\<close> cells of the component (\<open>users\<close> holds the
  address of an array; the cell \<open>isInitialized\<close> is \<open>isInitialized_st\<close>), the mounted
  effect (\<open>isInitialized_cl\<close> is the value of \<open>isInitialized\<close> that \<open>initializeApp\<close> and
  the timer callback have captured, \<open>initTimeout\<close> its timer), whether the page runs in a
  frame (\<open>window.self !== window.top\<close>), the service module with the heap, the clock in
  milliseconds, the pending timers in the order they were set, and the outputs so far.
\<close>

record app =
  users :: addr
  isLoading :: bool
  error :: "string option"
  isInitialized_st :: bool
  searchTerm :: string
  userToDelete :: "UserProfile option"
  toast :: "ToastState option"
  isInitialized_cl :: bool
  initTimeout :: nat
  embedded :: bool
  service :: service_state
  now :: nat
  timers :: "timer list"
  next_timer :: nat
  outputs :: "out_event list"

definition emit :: "out_event \<Rightarrow> app \<Rightarrow> app" where
  "emit x s = s\<lparr>outputs := outputs s @ [x]\<rparr>"

definition setTimeout :: "task \<Rightarrow> nat \<Rightarrow> app \<Rightarrow> nat \<times> app" where
  "setTimeout k delay s =
     (next_timer s,
      s\<lparr>timers := timers s @ [\<lparr>timer_id = next_timer s, due = now s + delay, task = k\<rparr>],
        next_timer := Suc (next_timer s)\<rparr>)"

definition clearTimeout :: "nat \<Rightarrow> app \<Rightarrow> app" where
  "clearTimeout i s = s\<lparr>timers := filter (\<lambda>t. timer_id t \<noteq> i) (timers s)\<rparr>"

text \<open>
  \<open>loadUsers\<close> up to its \<open>await\<close>, and from the moment the promise of \<open>getUsers\<close> settles.
  \<open>loadUsers\<close> catches every error, so nothing runs after an \<open>await loadUsers()\<close>.
\<close>

definition loadUsers :: "app \<Rightarrow> app" where
  "loadUsers s =
     snd (setTimeout GetUsersSettles 800 (emit CallGetUsers (s\<lparr>isLoading := True, error := None\<rparr>)))"

definition loadUsers_settles :: "app \<Rightarrow> app" where
  "loadUsers_settles s =
     (case getUsers (service s) of
        (Inr fetchedUsers, svc) \<Rightarrow> s\<lparr>service := svc, users := fetchedUsers, isLoading := False\<rparr>
      | (Inl err, svc) \<Rightarrow>
          (emit (ConsoleError (err_message err))
             (s\<lparr>service := svc, error := Some (''Failed to load users: '' @ err_message err)\<rparr>))
          \<lparr>isLoading := False\<rparr>)"

text \<open>
  \<open>initializeApp\<close>, with the captured \<open>isInitialized\<close> as its first argument: up to the
  \<open>await\<close>, and from the moment the promise of \<open>initialize\<close> settles.
\<close>

definition initializeApp :: "bool \<Rightarrow> jsval \<Rightarrow> app \<Rightarrow> app" where
  "initializeApp isInit token s =
     (if isInit then s
      else snd (setTimeout (InitializeSettles token) 500 (emit (CallInitialize token) s)))"

definition initializeApp_settles :: "jsval \<Rightarrow> app \<Rightarrow> app" where
  "initializeApp_settles token s =
     (case initialize token (service s) of
        (Inr _, svc) \<Rightarrow>
          loadUsers ((emit (ConsoleLog ''Supabase client initialized.'') (s\<lparr>service := svc\<rparr>))
                       \<lparr>isInitialized_st := True\<rparr>)
      | (Inl err, svc) \<Rightarrow>
          s\<lparr>service := svc, error := Some (''Initialization failed: '' @ err_message err),
            isLoading := False\<rparr>)"

text \<open>The data of a \<open>message\<close> event: \<open>event.data.type\<close> and \<open>event.data.token\<close>.\<close>

record message_data =
  msg_type :: jsval
  msg_token :: jsval

definition handleMessage :: "message_data \<Rightarrow> app \<Rightarrow> app" where
  "handleMessage d s =
     (if msg_type d = JStr ''AUTH_TOKEN''
      then initializeApp (isInitialized_cl s) (msg_token d)
             (clearTimeout (initTimeout s)
                (emit (ConsoleLog ''AUTH_TOKEN received from parent app.'') s))
      else s)"

text \<open>The callback of the fallback timer, with the captured \<open>isInitialized\<close>.\<close>

definition initTimeout_fires :: "bool \<Rightarrow> app \<Rightarrow> app" where
  "initTimeout_fires isInit s =
     (if \<not> isInit
      then initializeApp isInit (JStr ''dev-mock-token'')
             (emit (ConsoleWarn ''No token received, initializing in dev mode as a fallback.'') s)
      else s)"

text \<open>
  The body of the effect and its cleanup. The listener is registered by the body and
  removed by the cleanup, so the listener in force is the one of the mounted effect.
\<close>

definition effect_run :: "app \<Rightarrow> app" where
  "effect_run s =
     (let s1 = (if embedded s
                then emit (PostMessage APP_LOADED)
                       (emit (ConsoleLog ''App loaded, sending APP_LOADED message to parent.'') s)
                else s)
      in case setTimeout (InitTimeout (isInitialized_st s1)) 1500 s1 of
           (i, s2) \<Rightarrow> s2\<lparr>isInitialized_cl := isInitialized_st s1, initTimeout := i\<rparr>)"

definition effect_cleanup :: "app \<Rightarrow> app" where
  "effect_cleanup s = clearTimeout (initTimeout s) s"

text \<open>
  After each turn of the event loop React renders, and runs the cleanup and the body of
  the effect again when a dependency has changed. \<open>loadUsers\<close> never changes
  (\<open>useCallback\<close> with no dependency), so this is when \<open>isInitialized\<close> differs from the
  value the mounted effect has captured. The render and the effect come before the next
  event, and the component stays mounted for the whole run.
\<close>

definition commit :: "app \<Rightarrow> app" where
  "commit s =
     (if isInitialized_st s \<noteq> isInitialized_cl s then effect_run (effect_cleanup s) else s)"

text \<open>The deletion flow: the request, the confirmation up to its \<open>await\<close>, and the rest.\<close>

definition handleDeleteRequest :: "UserProfile \<Rightarrow> app \<Rightarrow> app" where
  "handleDeleteRequest user s = s\<lparr>userToDelete := Some user\<rparr>"

definition handleConfirmDelete :: "app \<Rightarrow> app" where
  "handleConfirmDelete s =
     (case userToDelete s of
        None \<Rightarrow> s
      | Some u \<Rightarrow> snd (setTimeout (DeleteUserSettles u) 600 (emit (CallDeleteUser (id_str u)) s)))"

definition handleConfirmDelete_settles :: "UserProfile \<Rightarrow> app \<Rightarrow> app" where
  "handleConfirmDelete_settles u s =
     (case deleteUser (id_str u) (service s) of
        (Inr _, svc) \<Rightarrow>
          (let s1 = emit (ConsoleLog (''User '' @ id_str u @ '' deleted.'')) (s\<lparr>service := svc\<rparr>);
               s2 = (if embedded s1 then emit (PostMessage (USER_DELETED (id_str u))) s1 else s1)
           in loadUsers
                (s2\<lparr>toast := Some \<lparr>toast_message =
                                    ''Usu'' @ [char_of (225 :: nat)] @ ''rio deletado com sucesso!'',
                                  toast_type = ToastSuccess\<rparr>,
                    userToDelete := None\<rparr>))
      | (Inl err, svc) \<Rightarrow>
          (emit (ConsoleError (''Failed to delete user: '' @ err_message err))
             (s\<lparr>service := svc,
               toast := Some \<lparr>toast_message =
                                ''Falha ao deletar usu'' @ [char_of (225 :: nat)] @ ''rio: ''
                                  @ err_message err,
                              toast_type = ToastError\<rparr>\<rparr>))
          \<lparr>userToDelete := None\<rparr>)"

text \<open>
  \<open>filteredUsers\<close>: \<open>filter\<close> builds a new array from the contents of \<open>users\<close>.
\<close>

definition filteredUsers :: "app \<Rightarrow> addr \<times> app" where
  "filteredUsers s =
     (case alloc (filter_users (arrays (service s) (users s)) (searchTerm s)) (service s) of
        (a, svc) \<Rightarrow> (a, s\<lparr>service := svc\<rparr>))"

text \<open>What the user sees in the table: the contents of \<open>filteredUsers\<close>.\<close>

definition displayed :: "app \<Rightarrow> UserProfile list" where
  "displayed s = filter_users (arrays (service s) (users s)) (searchTerm s)"

text \<open>
  Events from outside: a \<open>message\<close> event of the window, and what the user does (the
  delete button of a row, the two buttons of the modal, typing in the search box,
  closing the toast).
\<close>

datatype ui_event =
    Message message_data
  | DeleteRequest UserProfile
  | ConfirmDelete
  | CloseModal
  | SearchChange string
  | CloseToast

fun handle :: "ui_event \<Rightarrow> app \<Rightarrow> app" where
  "handle (Message d) s = handleMessage d s"
| "handle (DeleteRequest user) s = handleDeleteRequest user s"
| "handle ConfirmDelete s = handleConfirmDelete s"
| "handle CloseModal s = s\<lparr>userToDelete := None\<rparr>"
| "handle (SearchChange v) s = s\<lparr>searchTerm := v\<rparr>"
| "handle CloseToast s = s\<lparr>toast := None\<rparr>"

fun run_task :: "task \<Rightarrow> app \<Rightarrow> app" where
  "run_task (InitTimeout c) s = initTimeout_fires c s"
| "run_task (InitializeSettles token) s = initializeApp_settles token s"
| "run_task GetUsersSettles s = loadUsers_settles s"
| "run_task (DeleteUserSettles u) s = handleConfirmDelete_settles u s"

text \<open>
  The event loop. The timer that fires next is the one that is due first, and among
  timers due at the same time the one set first.
\<close>

fun earliest :: "timer list \<Rightarrow> timer option" where
  "earliest [] = None"
| "earliest (t # ts) =
     (case earliest ts of
        None \<Rightarrow> Some t
      | Some t' \<Rightarrow> if due t \<le> due t' then Some t else Some t')"

text \<open>
  A turn of the event loop is \<open>TimerFires\<close>, which advances the clock to the next timer
  and runs it, or \<open>At t x\<close>, the event \<open>x\<close> from outside at time \<open>t\<close>: it can happen when
  the clock has not passed \<open>t\<close> and no pending timer was due before \<open>t\<close>. \<open>None\<close> says that
  the turn cannot happen in this state.
\<close>

datatype event = TimerFires | At nat ui_event

fun step :: "event \<Rightarrow> app \<Rightarrow> app option" where
  "step TimerFires s =
     (case earliest (timers s) of
        None \<Rightarrow> None
      | Some t \<Rightarrow>
          Some (commit (run_task (task t)
                  (s\<lparr>timers := remove1 t (timers s), now := max (now s) (due t)\<rparr>))))"
| "step (At t x) s =
     (if now s \<le> t \<and> list_all (\<lambda>tm. t \<le> due tm) (timers s)
      then Some (commit (handle x (s\<lparr>now := t\<rparr>)))
      else None)"

fun run :: "event list \<Rightarrow> app \<Rightarrow> app option" where
  "run [] s = Some s"
| "run (e # es) s = (case step e s of None \<Rightarrow> None | Some s' \<Rightarrow> run es s')"

text \<open>
  The page after the first render and the first run of the effect: the initial values
  of the \<open>useState\<close> cells (\<open>users\<close> is a new empty array), then the effect.
\<close>

definition mount :: "bool \<Rightarrow> (nat \<Rightarrow> string) \<Rightarrow> app" where
  "mount emb uuid =
     (case alloc [] (initial_service uuid) of
        (a, svc) \<Rightarrow>
          effect_run
            \<lparr>users = a, isLoading = True, error = None, isInitialized_st = False,
             searchTerm = [], userToDelete = None, toast = None,
             isInitialized_cl = False, initTimeout = 0, embedded = emb, service = svc,
             now = 0, timers = [], next_timer = 0, outputs = []\<rparr>)"

section \<open>Observations and invariants of a run\<close>

text \<open>
  The fallback announces itself with a warning on the console; \<open>fallback_count\<close> counts
  how often it has run, \<open>initialize_calls\<close> lists the tokens \<open>initialize\<close> has been
  called with.
\<close>

definition fallback_warning :: out_event where
  "fallback_warning = ConsoleWarn ''No token received, initializing in dev mode as a fallback.''"

definition fallback_count :: "app \<Rightarrow> nat" where
  "fallback_count s = count_list (outputs s) fallback_warning"

fun initialize_token :: "out_event \<Rightarrow> jsval option" where
  "initialize_token (CallInitialize token) = Some token"
| "initialize_token _ = None"

definition initialize_calls :: "app \<Rightarrow> jsval list" where
  "initialize_calls s = List.map_filter initialize_token (outputs s)"

text \<open>Kinds of events: a credential message, one that arrives by a given time, one with a
  token that is truthy.\<close>

fun is_credential :: "ui_event \<Rightarrow> bool" where
  "is_credential (Message d) = (msg_type d = JStr ''AUTH_TOKEN'')"
| "is_credential _ = False"

fun credential_by :: "nat \<Rightarrow> event \<Rightarrow> bool" where
  "credential_by limit (At t x) = (is_credential x \<and> t \<le> limit)"
| "credential_by limit TimerFires = False"

fun any_credential :: "event \<Rightarrow> bool" where
  "any_credential (At t x) = is_credential x"
| "any_credential TimerFires = False"

fun valid_credential :: "event \<Rightarrow> bool" where
  "valid_credential (At t (Message d)) = (msg_type d = JStr ''AUTH_TOKEN'' \<and> truthy (msg_token d))"
| "valid_credential _ = False"

text \<open>
  States of the handshake, as the proofs below use them. \<open>no_fallback\<close>: the mounted
  effect is up to date and no live fallback timer is pending. \<open>waiting\<close>: nothing has
  happened yet, the fallback timer is the only timer besides pending deletions.
  \<open>armed\<close>: the fallback has not run, and a live fallback timer, if any, is the effect's
  own, due at 1500. \<open>quiet\<close>: not initialized, nothing fetched, and nothing pending
  that could initialize (but the fallback timer, when the flag allows it).
\<close>

definition no_fallback :: "app \<Rightarrow> bool" where
  "no_fallback s =
     (isInitialized_st s = isInitialized_cl s
      \<and> (\<forall>tm\<in>set (timers s). task tm \<noteq> InitTimeout False))"

fun is_delete_timer :: "timer \<Rightarrow> bool" where
  "is_delete_timer tm = (case task tm of DeleteUserSettles u \<Rightarrow> True | _ \<Rightarrow> False)"

definition waiting :: "app \<Rightarrow> bool" where
  "waiting s =
     (\<not> isInitialized_st s \<and> \<not> isInitialized_cl s \<and> \<not> isInitialized (service s)
      \<and> fallback_count s = 0 \<and> initialize_calls s = []
      \<and> (\<exists>tm0. filter (\<lambda>tm. \<not> is_delete_timer tm) (timers s) = [tm0]
             \<and> task tm0 = InitTimeout False \<and> due tm0 = 1500))"

definition armed :: "app \<Rightarrow> bool" where
  "armed s =
     (fallback_count s = 0 \<and> isInitialized_st s = isInitialized_cl s
      \<and> (\<forall>tm\<in>set (timers s). task tm = InitTimeout False \<longrightarrow>
             timer_id tm = initTimeout s \<and> due tm = 1500))"

fun quiet_task :: "bool \<Rightarrow> bool \<Rightarrow> task \<Rightarrow> bool" where
  "quiet_task fallback mine (InitTimeout c) = (fallback \<and> \<not> c \<and> mine)"
| "quiet_task fallback mine (InitializeSettles token) = (\<not> truthy token)"
| "quiet_task fallback mine GetUsersSettles = False"
| "quiet_task fallback mine (DeleteUserSettles u) = True"

definition quiet :: "bool \<Rightarrow> app \<Rightarrow> bool" where
  "quiet fallback s =
     (\<not> isInitialized_st s \<and> \<not> isInitialized_cl s \<and> \<not> isInitialized (service s)
      \<and> CallGetUsers \<notin> set (outputs s)
      \<and> (\<forall>tm\<in>set (timers s).
            quiet_task fallback (timer_id tm = initTimeout s \<and> due tm = 1500) (task tm)))"

text \<open>
  \<open>allocated\<close>: the mounted effect is up to date and the array of \<open>users\<close> has been
  allocated. It holds in every state a run from the mount reaches.
\<close>

definition allocated :: "app \<Rightarrow> bool" where
  "allocated s = (isInitialized_st s = isInitialized_cl s \<and> users s < next_addr (service s))"

text \<open>The fallback has run, once, and the first call of \<open>initialize\<close> had the placeholder.\<close>

definition fired :: "app \<Rightarrow> bool" where
  "fired s = (no_fallback s \<and> fallback_count s = 1 \<and> 1500 \<le> now s
              \<and> prefix [JStr ''dev-mock-token''] (initialize_calls s))"

section \<open>Concrete inputs\<close>

definition example_uuid :: "nat \<Rightarrow> string" where
  "example_uuid k = ''uuid-'' @ replicate k (CHR ''x'')"

definition example_service :: service_state where
  "example_service = snd (initialize (JStr ''dev-mock-token'') (initial_service example_uuid))"

definition auth_token :: "jsval \<Rightarrow> ui_event" where
  "auth_token token = Message \<lparr>msg_type = JStr ''AUTH_TOKEN'', msg_token = token\<rparr>"

text \<open>
  Runs of the page used as concrete inputs. \<open>late_credential\<close>: the fallback fires,
  then the parent sends a token at 1900. \<open>alone\<close>: no message ever arrives.
  \<open>in_time\<close>: the parent sends a token after 400 ms. \<open>rejected\<close>: what follows
  an empty token in the run of the witness for the missing credential (a second message
  with \<open>null\<close>, the toast closed). \<open>searching\<close>: the list is loaded through the
  fallback, then the user types \<open>ALICE\<close>. \<open>twice_confirmed\<close>: the list is loaded, the
  user asks to delete bob and presses the confirm button twice; the run stops when the
  first deletion has settled and the second is about to.
\<close>

text \<open>
  Three calls made at once on the closed gate, none awaited (\<open>unawaited\<close>), and the same
  with \<open>initialize\<close> called 400 ms later (\<open>opened_late\<close>).
\<close>

definition unawaited :: "timed_call list" where
  "unawaited = [(0, OpGetUsers), (0, OpDeleteUser ''uuid-x''), (0, OpInitialize (JStr ''t''))]"

definition opened_late :: "timed_call list" where
  "opened_late = [(0, OpGetUsers), (0, OpDeleteUser ''uuid-x''), (400, OpInitialize (JStr ''t''))]"

definition late_credential :: "event list" where
  "late_credential =
     [TimerFires, At 1900 (auth_token (JStr ''parent-token'')), TimerFires, TimerFires]"

definition alone :: "event list" where
  "alone = [At 700 (SearchChange ''al''), TimerFires, TimerFires, TimerFires, TimerFires]"

definition in_time :: "event list" where
  "in_time = [At 400 (auth_token (JStr ''parent-token'')), TimerFires, TimerFires, TimerFires]"

definition rejected :: "event list" where
  "rejected = [TimerFires, At 900 (auth_token JNull), TimerFires, At 5000 CloseToast]"

definition searching :: "event list" where
  "searching = [TimerFires, TimerFires, TimerFires, TimerFires, At 4000 (SearchChange ''ALICE'')]"

definition twice_confirmed :: "event list" where
  "twice_confirmed =
     [TimerFires, TimerFires, TimerFires, TimerFires,
      At 4000 (DeleteRequest \<lparr>id_str = ''uuid-x'', username = ''bob@example.com''\<rparr>),
      At 4100 ConfirmDelete, At 4150 ConfirmDelete, TimerFires]"

section \<open>The service: basic facts\<close>

lemma profiles_alloc:
  "mockProfiles s < next_addr s \<Longrightarrow> profiles (snd (alloc xs s)) = profiles s"
  by (simp add: alloc_def profiles_def)

lemma exec_op_isInitialized:
  "isInitialized s \<Longrightarrow> isInitialized (exec_op x s)"
  by (cases x) (auto simp: initialize_def getUsers_def deleteUser_def alloc_def Let_def)

lemma exec_ops_isInitialized:
  "isInitialized s \<Longrightarrow> isInitialized (exec_ops xs s)"
  by (induction xs arbitrary: s) (auto simp: exec_op_isInitialized)



text \<open>With distinct identifiers, filtering one identifier out removes one record.\<close>

lemma filter_id_remove1:
  "distinct (map id_str xs) \<Longrightarrow> p \<in> set xs \<Longrightarrow>
   filter (\<lambda>q. id_str q \<noteq> id_str p) xs = remove1 p xs"
proof (induction xs)
  case Nil
  then show ?case by simp
next
  case (Cons x xs)
  show ?case
  proof (cases "x = p")
    case True
    with Cons.prems have "\<forall>q\<in>set xs. id_str q \<noteq> id_str p"
      by (metis distinct.simps(2) image_eqI list.simps(9) set_map)
    then have "filter (\<lambda>q. id_str q \<noteq> id_str p) xs = xs" by (simp add: filter_id_conv)
    with True show ?thesis by simp
  next
    case False
    with Cons.prems have "p \<in> set xs" "id_str x \<noteq> id_str p" by auto
    with Cons False show ?thesis by auto
  qed
qed

lemma deleteUser_profiles:
  "isInitialized s \<Longrightarrow>
   profiles (snd (deleteUser userId s)) = filter (\<lambda>p. id_str p \<noteq> userId) (profiles s)"
  by (simp add: deleteUser_def alloc_def profiles_def Let_def)

lemma deleteUser_result:
  "isInitialized s \<Longrightarrow>
   fst (deleteUser userId s) =
     (if length (filter (\<lambda>p. id_str p \<noteq> userId) (profiles s)) < length (profiles s) then Inr ()
      else Inl (Error (''User with ID '' @ userId @ '' not found.'')))"
  by (simp add: deleteUser_def alloc_def profiles_def Let_def)

lemma deleteUser_frame:
  "isInitialized s \<Longrightarrow>
   isInitialized (snd (deleteUser userId s)) \<and>
   mockProfiles (snd (deleteUser userId s)) = next_addr s \<and>
   next_addr (snd (deleteUser userId s)) = Suc (next_addr s) \<and>
   (\<forall>a. a \<noteq> next_addr s \<longrightarrow> arrays (snd (deleteUser userId s)) a = arrays s a)"
  by (simp add: deleteUser_def alloc_def profiles_def Let_def)

lemma getUsers_ready:
  "isInitialized s \<Longrightarrow>
   getUsers s = (Inr (next_addr s),
     s\<lparr>arrays := (arrays s)(next_addr s := profiles s), next_addr := Suc (next_addr s)\<rparr>)"
  by (simp add: getUsers_def alloc_def)

lemma example_profiles:
  "profiles example_service =
     [\<lparr>id_str = ''uuid-'', username = ''alice@example.com''\<rparr>,
      \<lparr>id_str = ''uuid-x'', username = ''bob@example.com''\<rparr>,
      \<lparr>id_str = ''uuid-xx'', username = ''charlie@example.com''\<rparr>,
      \<lparr>id_str = ''uuid-xxx'', username = ''diana@example.com''\<rparr>,
      \<lparr>id_str = ''uuid-xxxx'', username = ''edward@example.com''\<rparr>]"
  by (simp add: example_service_def initialize_def initial_service_def profiles_def
      initial_profiles_def example_uuid_def eval_nat_numeral)

lemma example_service_ready: "isInitialized example_service \<and> wf_store example_service"
  by (simp add: wf_store_def example_profiles)
     (simp add: example_service_def initialize_def initial_service_def)

text \<open>The store at module load is well formed when the five UUIDs differ, and every
  operation keeps it so.\<close>

lemma exec_op_wf_store: "wf_store s \<Longrightarrow> wf_store (exec_op x s)"
proof (cases x)
  case (OpInitialize token)
  then show "wf_store s \<Longrightarrow> wf_store (exec_op x s)"
    by (simp add: wf_store_def initialize_def profiles_def)
next
  case OpGetUsers
  then show "wf_store s \<Longrightarrow> wf_store (exec_op x s)"
    by (simp add: wf_store_def getUsers_def alloc_def profiles_def)
next
  case (OpDeleteUser userId)
  then show "wf_store s \<Longrightarrow> wf_store (exec_op x s)"
    by (simp add: wf_store_def deleteUser_def alloc_def profiles_def Let_def distinct_map_filter)
qed

lemma exec_ops_wf_store: "wf_store s \<Longrightarrow> wf_store (exec_ops xs s)"
  by (induction xs arbitrary: s) (simp_all add: exec_op_wf_store)

lemma initial_service_wf_store:
  "distinct [uuid 0, uuid 1, uuid 2, uuid 3, uuid 4] \<Longrightarrow> wf_store (initial_service uuid)"
  by (simp add: wf_store_def initial_service_def initial_profiles_def profiles_def)

section \<open>The service while the session gate is closed\<close>

lemma settle_call_closed:
  "\<not> isInitialized s \<Longrightarrow> \<not> opens (t, x) \<Longrightarrow> settle_call x s = (closed_outcome x, s)"
  by (cases x) (simp_all add: initialize_def getUsers_def deleteUser_def)

lemma settle_calls_calls: "map fst (fst (settle_calls cs s)) = cs"
proof (induction cs arbitrary: s)
  case Nil
  then show ?case by simp
next
  case (Cons a cs)
  obtain r1 s1 where a: "settle_call (snd a) s = (r1, s1)" by (cases "settle_call (snd a) s")
  obtain rs s2 where rs: "settle_calls cs s1 = (rs, s2)" by (cases "settle_calls cs s1")
  from Cons.IH [of s1] rs have "map fst rs = cs" by simp
  with a rs show ?case by simp
qed

lemma settle_calls_closed:
  assumes "sorted (map settles_at cs)" and "\<not> isInitialized s"
    and "(c, r, ps) \<in> set (fst (settle_calls cs s))"
    and "\<forall>c'\<in>set cs. opens c' \<longrightarrow> settles_at c < settles_at c'"
  shows "r = closed_outcome (snd c) \<and> ps = profiles s"
  using assms
proof (induction cs arbitrary: s)
  case Nil
  then show ?case by simp
next
  case (Cons a cs)
  obtain r1 s1 where a: "settle_call (snd a) s = (r1, s1)" by (cases "settle_call (snd a) s")
  obtain rs s2 where rs: "settle_calls cs s1 = (rs, s2)" by (cases "settle_calls cs s1")
  from Cons.prems(3) a rs have m: "(c, r, ps) = (a, r1, profiles s1) \<or> (c, r, ps) \<in> set rs"
    by simp
  have c_in: "c \<in> set (a # cs)"
  proof -
    from Cons.prems(3) have "c \<in> fst ` set (fst (settle_calls (a # cs) s))" by force
    then show ?thesis using settle_calls_calls [of "a # cs" s] by (metis set_map)
  qed
  have na: "\<not> opens a"
  proof
    assume o: "opens a"
    with Cons.prems(4) have l: "settles_at c < settles_at a" by simp
    from c_in have "c = a \<or> c \<in> set cs" by simp
    then show False
    proof
      assume "c = a" with l show False by simp
    next
      assume "c \<in> set cs"
      with Cons.prems(1) have "settles_at a \<le> settles_at c" by auto
      with l show False by simp
    qed
  qed
  have "settle_call (snd a) s = (closed_outcome (snd a), s)"
    using settle_call_closed [OF Cons.prems(2), of "fst a" "snd a"] na by simp
  with a have r1: "r1 = closed_outcome (snd a)" "s1 = s" by simp_all
  from m show ?case
  proof
    assume "(c, r, ps) = (a, r1, profiles s1)"
    with r1 show ?thesis by simp
  next
    assume "(c, r, ps) \<in> set rs"
    with rs r1 have i: "(c, r, ps) \<in> set (fst (settle_calls cs s))" by simp
    from Cons.prems(1) have so: "sorted (map settles_at cs)" by simp
    from Cons.prems(4) have al: "\<forall>c'\<in>set cs. opens c' \<longrightarrow> settles_at c < settles_at c'" by simp
    from Cons.IH [OF so Cons.prems(2) i al] show ?thesis .
  qed
qed

text \<open>
  Claim C1, as the code has it. The gate is tested when the timer of a call fires, not
  when the call is made. Take any calls made on a service that is not initialized. A
  call whose timer fires before the timer of every \<open>initialize\<close> with a truthy token is
  rejected: \<open>getUsers\<close> and \<open>deleteUser\<close> with \<open>Supabase client not initialized.\<close>, and
  the contents of the store right after are those of the start, so no data is returned
  and none removed. On a state that is not initialized the two callbacks reject with
  this error and leave the whole state as it was, and the error differs from the one of
  a missing record, whatever the identifier.
\<close>

theorem closed_gate_rejects:
  assumes "\<not> isInitialized s0" and "c \<in> set calls"
    and "\<forall>c'\<in>set calls. opens c' \<longrightarrow> settles_at c < settles_at c'"
  shows "(c, closed_outcome (snd c), profiles s0) \<in> set (fst (overlapping calls s0))
       \<and> (\<forall>r ps. (c, r, ps) \<in> set (fst (overlapping calls s0)) \<longrightarrow>
             r = closed_outcome (snd c) \<and> ps = profiles s0)
       \<and> getUsers s0 = (Inl (Error ''Supabase client not initialized.''), s0)
       \<and> deleteUser userId s0 = (Inl (Error ''Supabase client not initialized.''), s0)
       \<and> Error ''Supabase client not initialized.''
           \<noteq> Error (''User with ID '' @ userId @ '' not found.'')"
proof -
  let ?cs = "sort_key settles_at calls"
  have so: "sorted (map settles_at ?cs)" by (rule sorted_sort_key)
  have se: "set ?cs = set calls" by simp
  have al: "\<forall>c'\<in>set ?cs. opens c' \<longrightarrow> settles_at c < settles_at c'"
    using assms(3) by simp
  have u: "\<forall>r ps. (c, r, ps) \<in> set (fst (overlapping calls s0)) \<longrightarrow>
             r = closed_outcome (snd c) \<and> ps = profiles s0"
    unfolding overlapping_def using settle_calls_closed [OF so assms(1) _ al] by blast
  have "c \<in> set (map fst (fst (settle_calls ?cs s0)))"
    using assms(2) by (simp add: settle_calls_calls)
  then obtain r ps where "(c, r, ps) \<in> set (fst (overlapping calls s0))"
    unfolding overlapping_def by force
  with u have e: "(c, closed_outcome (snd c), profiles s0) \<in> set (fst (overlapping calls s0))"
    by blast
  have b: "getUsers s0 = (Inl (Error ''Supabase client not initialized.''), s0)"
    "deleteUser userId s0 = (Inl (Error ''Supabase client not initialized.''), s0)"
    using assms(1) by (simp_all add: getUsers_def deleteUser_def)
  have d: "Error ''Supabase client not initialized.''
           \<noteq> Error (''User with ID '' @ userId @ '' not found.'')" by simp
  show ?thesis by (intro conjI e u b d)
qed

theorem closed_gate_rejects_witness:
  "\<not> isInitialized (initial_service example_uuid)
   \<and> (0, OpDeleteUser ''uuid-x'') \<in> set opened_late
   \<and> list_all (\<lambda>c'. \<not> opens c' \<or> settles_at (0, OpDeleteUser ''uuid-x'') < settles_at c')
        opened_late
   \<and> ((0, OpDeleteUser ''uuid-x''), Rejected (Error ''Supabase client not initialized.''),
        profiles (initial_service example_uuid))
        \<in> set (fst (overlapping opened_late (initial_service example_uuid)))"
proof -
  have h1: "\<not> isInitialized (initial_service example_uuid)"
    by (simp add: initial_service_def)
  have h2: "(0, OpDeleteUser ''uuid-x'') \<in> set opened_late"
    by (simp add: opened_late_def)
  have h3: "\<forall>c'\<in>set opened_late. opens c' \<longrightarrow>
              settles_at (0, OpDeleteUser ''uuid-x'') < settles_at c'"
    by (simp add: opened_late_def settles_at_def)
  have h3': "list_all (\<lambda>c'. \<not> opens c' \<or> settles_at (0, OpDeleteUser ''uuid-x'') < settles_at c')
        opened_late"
    by (simp add: opened_late_def settles_at_def)
  from closed_gate_rejects [OF h1 h2 h3]
  have "((0, OpDeleteUser ''uuid-x''), closed_outcome (snd (0 :: nat, OpDeleteUser ''uuid-x'')),
        profiles (initial_service example_uuid))
        \<in> set (fst (overlapping opened_late (initial_service example_uuid)))"
    by blast
  then have "((0, OpDeleteUser ''uuid-x''), Rejected (Error ''Supabase client not initialized.''),
        profiles (initial_service example_uuid))
        \<in> set (fst (overlapping opened_late (initial_service example_uuid)))"
    by simp
  with h1 h2 h3' show ?thesis by (intro conjI)
qed

text \<open>
  A call made while the gate is closed can succeed. \<open>getUsers()\<close>, \<open>deleteUser\<close> of bob
  and \<open>initialize\<close> are called at once, in this order, on the service as loaded: the
  flag is set after 500 ms, the deletion resolves after 600 ms and removes bob, and the
  fetch resolves after 800 ms with the four profiles left.
\<close>

theorem call_before_initialize_succeeds:
  "\<not> isInitialized (initial_service example_uuid)
   \<and> map (\<lambda>(c, r, ps). (c, r, map username ps))
        (fst (overlapping unawaited (initial_service example_uuid)))
     = [((0, OpInitialize (JStr ''t'')), Resolved,
          [''alice@example.com'', ''bob@example.com'', ''charlie@example.com'',
           ''diana@example.com'', ''edward@example.com'']),
        ((0, OpDeleteUser ''uuid-x''), Resolved,
          [''alice@example.com'', ''charlie@example.com'', ''diana@example.com'',
           ''edward@example.com'']),
        ((0, OpGetUsers),
          ResolvedUsers
            [\<lparr>id_str = ''uuid-'', username = ''alice@example.com''\<rparr>,
             \<lparr>id_str = ''uuid-xx'', username = ''charlie@example.com''\<rparr>,
             \<lparr>id_str = ''uuid-xxx'', username = ''diana@example.com''\<rparr>,
             \<lparr>id_str = ''uuid-xxxx'', username = ''edward@example.com''\<rparr>],
          [''alice@example.com'', ''charlie@example.com'', ''diana@example.com'',
           ''edward@example.com''])]"
  unfolding unawaited_def by code_simp

section \<open>Deleting a record\<close>

text \<open>
  Claim C2. In an initialized, well-formed store, \<open>deleteUser\<close> of an identifier that is
  present resolves, the store loses exactly one record, the one with this identifier
  (its length drops by one, the others stay in their order), the store stays well
  formed, and a \<open>getUsers\<close> after it resolves with an array in which the identifier does
  not occur.
\<close>

theorem delete_present_removes_one:
  assumes "isInitialized s" and "wf_store s" and "userId \<in> id_str ` set (profiles s)"
  shows "\<exists>p s' a s''.
           deleteUser userId s = (Inr (), s')
         \<and> p \<in> set (profiles s) \<and> id_str p = userId
         \<and> profiles s' = remove1 p (profiles s)
         \<and> Suc (length (profiles s')) = length (profiles s)
         \<and> wf_store s'
         \<and> getUsers s' = (Inr a, s'')
         \<and> arrays s'' a = profiles s'
         \<and> userId \<notin> id_str ` set (arrays s'' a)"
proof -
  from assms(3) obtain p where p: "p \<in> set (profiles s)" "id_str p = userId" by auto
  define s' where "s' = snd (deleteUser userId s)"
  have d: "distinct (map id_str (profiles s))" using assms(2) by (simp add: wf_store_def)
  have f: "filter (\<lambda>q. id_str q \<noteq> userId) (profiles s) = remove1 p (profiles s)"
    using filter_id_remove1 [OF d p(1)] p(2) by simp
  have ps: "profiles s' = remove1 p (profiles s)"
    unfolding s'_def using deleteUser_profiles [OF assms(1)] f by simp
  have len: "Suc (length (profiles s')) = length (profiles s)"
    using ps p(1) by (simp add: length_remove1) (cases "profiles s"; simp)
  have res: "fst (deleteUser userId s) = Inr ()"
    using deleteUser_result [OF assms(1), of userId] f ps len by simp
  have fr: "isInitialized s'" "mockProfiles s' = next_addr s" "next_addr s' = Suc (next_addr s)"
    unfolding s'_def using deleteUser_frame [OF assms(1), of userId] by simp_all
  have "distinct (map id_str (filter (\<lambda>q. id_str q \<noteq> userId) (profiles s)))"
    using d by (rule distinct_map_filter)
  then have wf: "wf_store s'"
    using fr ps f by (simp add: wf_store_def)
  have g: "getUsers s' = (Inr (next_addr s'),
     s'\<lparr>arrays := (arrays s')(next_addr s' := profiles s'), next_addr := Suc (next_addr s')\<rparr>)"
    by (rule getUsers_ready [OF fr(1)])
  have ex: "userId \<notin> id_str ` set (profiles s')"
    using ps f [symmetric] by auto
  have "deleteUser userId s = (Inr (), s')"
    using res by (simp add: s'_def prod_eq_iff)
  with p ps len wf g ex show ?thesis by auto
qed

theorem delete_present_removes_one_witness:
  "isInitialized example_service \<and> wf_store example_service
   \<and> ''uuid-x'' \<in> id_str ` set (profiles example_service)
   \<and> (\<exists>p s' a s''.
           deleteUser ''uuid-x'' example_service = (Inr (), s')
         \<and> p \<in> set (profiles example_service) \<and> id_str p = ''uuid-x''
         \<and> profiles s' = remove1 p (profiles example_service)
         \<and> Suc (length (profiles s')) = length (profiles example_service)
         \<and> wf_store s'
         \<and> getUsers s' = (Inr a, s'')
         \<and> arrays s'' a = profiles s'
         \<and> ''uuid-x'' \<notin> id_str ` set (arrays s'' a))"
proof -
  have h1: "isInitialized example_service" and h2: "wf_store example_service"
    using example_service_ready by simp_all
  have h3: "''uuid-x'' \<in> id_str ` set (profiles example_service)"
    by (simp add: example_profiles)
  show ?thesis
    using h1 h2 h3 delete_present_removes_one [OF h1 h2 h3] by blast
qed

text \<open>
  Claim C3. In an initialized store, \<open>deleteUser\<close> of an identifier that is not present
  rejects with \<open>User with ID ... not found.\<close>; the contents of the store, the flag and
  every array allocated before are as they were, and a second attempt rejects in the
  same way and again leaves the contents alone.
\<close>

theorem delete_absent_not_found:
  assumes "isInitialized s" and "userId \<notin> id_str ` set (profiles s)"
  shows "\<exists>s'. deleteUser userId s =
                (Inl (Error (''User with ID '' @ userId @ '' not found.'')), s')
            \<and> profiles s' = profiles s
            \<and> isInitialized s'
            \<and> (\<forall>a<next_addr s. arrays s' a = arrays s a)
            \<and> fst (deleteUser userId s') = fst (deleteUser userId s)
            \<and> profiles (snd (deleteUser userId s')) = profiles s"
proof -
  define s' where "s' = snd (deleteUser userId s)"
  have f: "filter (\<lambda>p. id_str p \<noteq> userId) (profiles s) = profiles s"
    using assms(2) by (auto simp: filter_id_conv)
  have ps: "profiles s' = profiles s"
    unfolding s'_def using deleteUser_profiles [OF assms(1), of userId] f by simp
  have res: "fst (deleteUser userId s) = Inl (Error (''User with ID '' @ userId @ '' not found.''))"
    using deleteUser_result [OF assms(1), of userId] f by simp
  have fr: "isInitialized s'" "\<forall>a<next_addr s. arrays s' a = arrays s a"
    unfolding s'_def using deleteUser_frame [OF assms(1), of userId] by simp_all
  have res': "fst (deleteUser userId s') = fst (deleteUser userId s)"
    using deleteUser_result [OF fr(1), of userId] res f ps by simp
  have ps': "profiles (snd (deleteUser userId s')) = profiles s"
    using deleteUser_profiles [OF fr(1), of userId] f ps by simp
  have "deleteUser userId s = (Inl (Error (''User with ID '' @ userId @ '' not found.'')), s')"
    using res by (simp add: s'_def prod_eq_iff)
  with ps fr res' ps' show ?thesis by blast
qed

theorem delete_absent_not_found_witness:
  "isInitialized example_service
   \<and> ''no-such-id'' \<notin> id_str ` set (profiles example_service)
   \<and> (\<exists>s'. deleteUser ''no-such-id'' example_service =
                (Inl (Error ''User with ID no-such-id not found.''), s')
            \<and> profiles s' = profiles example_service)"
proof -
  have h1: "isInitialized example_service"
    using example_service_ready by simp
  have h2: "''no-such-id'' \<notin> id_str ` set (profiles example_service)"
    by (simp add: example_profiles)
  from delete_absent_not_found [OF h1 h2] obtain s' where
    "deleteUser ''no-such-id'' example_service =
       (Inl (Error (''User with ID '' @ ''no-such-id'' @ '' not found.'')), s')"
    "profiles s' = profiles example_service" by blast
  then have "\<exists>s'. deleteUser ''no-such-id'' example_service =
                (Inl (Error ''User with ID no-such-id not found.''), s')
            \<and> profiles s' = profiles example_service" by simp
  with h1 h2 show ?thesis by blast
qed

section \<open>Fetching the list\<close>



section \<open>Opening the session gate\<close>

text \<open>
  Claim C10. For every non-empty string, the placeholder \<open>dev-mock-token\<close> among them,
  \<open>initialize\<close> resolves and sets the flag, and nothing else of the state changes. The
  result is the same for every non-empty string, so the content of the token is not
  looked at. After it \<open>getUsers\<close> resolves with the contents of the store, and
  \<open>deleteUser\<close> of any record of the store resolves and removes its identifier.
\<close>

theorem any_nonempty_token_initializes:
  assumes "token \<noteq> []"
  shows "initialize (JStr token) s = (Inr (), s\<lparr>isInitialized := True\<rparr>)
       \<and> initialize (JStr token) s = initialize (JStr ''dev-mock-token'') s
       \<and> (\<forall>token'. token' \<noteq> [] \<longrightarrow> initialize (JStr token') s = initialize (JStr token) s)
       \<and> (\<exists>a s'. getUsers (snd (initialize (JStr token) s)) = (Inr a, s')
                   \<and> arrays s' a = profiles s)
       \<and> (\<forall>p \<in> set (profiles s).
             fst (deleteUser (id_str p) (snd (initialize (JStr token) s))) = Inr ()
           \<and> id_str p \<notin> id_str ` set (profiles (snd (deleteUser (id_str p)
                 (snd (initialize (JStr token) s))))))"
proof -
  define s1 where "s1 = s\<lparr>isInitialized := True\<rparr>"
  have i: "initialize (JStr token) s = (Inr (), s1)"
    using assms by (simp add: initialize_def s1_def)
  have r: "isInitialized s1" "profiles s1 = profiles s"
    by (simp_all add: s1_def profiles_def)
  have same: "\<forall>token'. token' \<noteq> [] \<longrightarrow> initialize (JStr token') s = initialize (JStr token) s"
    using assms by (simp add: initialize_def)
  have dev: "initialize (JStr token) s = initialize (JStr ''dev-mock-token'') s"
    using assms by (simp add: initialize_def)
  have g: "\<exists>a s'. getUsers s1 = (Inr a, s') \<and> arrays s' a = profiles s"
    using getUsers_ready [OF r(1)] r(2) by simp
  have d: "\<forall>p \<in> set (profiles s). fst (deleteUser (id_str p) s1) = Inr ()
           \<and> id_str p \<notin> id_str ` set (profiles (snd (deleteUser (id_str p) s1)))"
  proof
    fix p assume p: "p \<in> set (profiles s)"
    have "length (filter (\<lambda>q. id_str q \<noteq> id_str p) (profiles s)) < length (profiles s)"
      using p by (auto intro!: length_filter_less)
    then have "fst (deleteUser (id_str p) s1) = Inr ()"
      using deleteUser_result [OF r(1), of "id_str p"] r(2) by simp
    moreover have "id_str p \<notin> id_str ` set (profiles (snd (deleteUser (id_str p) s1)))"
      using deleteUser_profiles [OF r(1), of "id_str p"] by auto
    ultimately show "fst (deleteUser (id_str p) s1) = Inr ()
           \<and> id_str p \<notin> id_str ` set (profiles (snd (deleteUser (id_str p) s1)))" by simp
  qed
  have s1: "snd (initialize (JStr token) s) = s1" by (simp add: i)
  have i': "initialize (JStr token) s = (Inr (), s\<lparr>isInitialized := True\<rparr>)"
    using i by (simp add: s1_def)
  show ?thesis unfolding s1 by (intro conjI i' dev same g d)
qed

theorem any_nonempty_token_initializes_witness:
  "''dev-mock-token'' \<noteq> []
   \<and> initialize (JStr ''dev-mock-token'') (initial_service example_uuid)
       = (Inr (), (initial_service example_uuid)\<lparr>isInitialized := True\<rparr>)
   \<and> (\<exists>a s'. getUsers (snd (initialize (JStr ''dev-mock-token'') (initial_service example_uuid)))
                 = (Inr a, s')
             \<and> arrays s' a = profiles (initial_service example_uuid))"
proof -
  have h: "''dev-mock-token'' \<noteq> []" by simp
  show ?thesis
    using h any_nonempty_token_initializes [OF h, of "initial_service example_uuid"] by blast
qed

section \<open>The component: what each function does to the state\<close>

lemma earliest_None: "(earliest ts = None) = (ts = [])"
  by (cases ts) (auto split: option.splits if_splits)

lemma earliest_Some:
  "earliest ts = Some t \<Longrightarrow> t \<in> set ts \<and> (\<forall>u\<in>set ts. due t \<le> due u)"
proof (induction ts arbitrary: t)
  case Nil
  then show ?case by simp
next
  case (Cons a ts)
  show ?case
  proof (cases "earliest ts")
    case None
    then have "ts = []" by (simp add: earliest_None)
    with Cons.prems show ?thesis by simp
  next
    case (Some b)
    from Cons.IH [OF Some] have b: "b \<in> set ts" "\<forall>u\<in>set ts. due b \<le> due u" by simp_all
    from Cons.prems Some have "t = (if due a \<le> due b then a else b)"
      by (auto split: if_splits)
    with b show ?thesis by (auto intro: order_trans)
  qed
qed

lemma map_filter_snoc:
  "List.map_filter f (xs @ [x]) = List.map_filter f xs @ (case f x of None \<Rightarrow> [] | Some y \<Rightarrow> [y])"
  by (simp add: List.map_filter_def split: option.splits)

subsection \<open>What each function does to the fields of the page\<close>

lemma emit_fields [simp]:
  "users (emit x s) = users s" "isLoading (emit x s) = isLoading s"
  "error (emit x s) = error s" "isInitialized_st (emit x s) = isInitialized_st s"
  "searchTerm (emit x s) = searchTerm s" "userToDelete (emit x s) = userToDelete s"
  "toast (emit x s) = toast s" "isInitialized_cl (emit x s) = isInitialized_cl s"
  "initTimeout (emit x s) = initTimeout s" "embedded (emit x s) = embedded s"
  "service (emit x s) = service s" "now (emit x s) = now s"
  "timers (emit x s) = timers s" "next_timer (emit x s) = next_timer s"
  "outputs (emit x s) = outputs s @ [x]"
  by (simp_all add: emit_def)

lemma setTimeout_fields [simp]:
  "fst (setTimeout k d s) = next_timer s"
  "users (snd (setTimeout k d s)) = users s" "isLoading (snd (setTimeout k d s)) = isLoading s"
  "error (snd (setTimeout k d s)) = error s"
  "isInitialized_st (snd (setTimeout k d s)) = isInitialized_st s"
  "searchTerm (snd (setTimeout k d s)) = searchTerm s"
  "userToDelete (snd (setTimeout k d s)) = userToDelete s"
  "toast (snd (setTimeout k d s)) = toast s"
  "isInitialized_cl (snd (setTimeout k d s)) = isInitialized_cl s"
  "initTimeout (snd (setTimeout k d s)) = initTimeout s"
  "embedded (snd (setTimeout k d s)) = embedded s"
  "service (snd (setTimeout k d s)) = service s" "now (snd (setTimeout k d s)) = now s"
  "timers (snd (setTimeout k d s)) =
     timers s @ [\<lparr>timer_id = next_timer s, due = now s + d, task = k\<rparr>]"
  "next_timer (snd (setTimeout k d s)) = Suc (next_timer s)"
  "outputs (snd (setTimeout k d s)) = outputs s"
  by (simp_all add: setTimeout_def)

lemma clearTimeout_fields [simp]:
  "users (clearTimeout i s) = users s" "isLoading (clearTimeout i s) = isLoading s"
  "error (clearTimeout i s) = error s" "isInitialized_st (clearTimeout i s) = isInitialized_st s"
  "searchTerm (clearTimeout i s) = searchTerm s" "userToDelete (clearTimeout i s) = userToDelete s"
  "toast (clearTimeout i s) = toast s" "isInitialized_cl (clearTimeout i s) = isInitialized_cl s"
  "initTimeout (clearTimeout i s) = initTimeout s" "embedded (clearTimeout i s) = embedded s"
  "service (clearTimeout i s) = service s" "now (clearTimeout i s) = now s"
  "timers (clearTimeout i s) = filter (\<lambda>t. timer_id t \<noteq> i) (timers s)"
  "next_timer (clearTimeout i s) = next_timer s"
  "outputs (clearTimeout i s) = outputs s"
  by (simp_all add: clearTimeout_def)

lemma loadUsers_fields [simp]:
  "users (loadUsers s) = users s" "isLoading (loadUsers s) = True"
  "error (loadUsers s) = None" "isInitialized_st (loadUsers s) = isInitialized_st s"
  "searchTerm (loadUsers s) = searchTerm s" "userToDelete (loadUsers s) = userToDelete s"
  "toast (loadUsers s) = toast s" "isInitialized_cl (loadUsers s) = isInitialized_cl s"
  "initTimeout (loadUsers s) = initTimeout s" "embedded (loadUsers s) = embedded s"
  "service (loadUsers s) = service s" "now (loadUsers s) = now s"
  "timers (loadUsers s) =
     timers s @ [\<lparr>timer_id = next_timer s, due = now s + 800, task = GetUsersSettles\<rparr>]"
  "next_timer (loadUsers s) = Suc (next_timer s)"
  "outputs (loadUsers s) = outputs s @ [CallGetUsers]"
  by (simp_all add: loadUsers_def)

lemma loadUsers_settles_fields [simp]:
  "isInitialized_st (loadUsers_settles s) = isInitialized_st s"
  "isInitialized_cl (loadUsers_settles s) = isInitialized_cl s"
  "initTimeout (loadUsers_settles s) = initTimeout s"
  "embedded (loadUsers_settles s) = embedded s"
  "now (loadUsers_settles s) = now s"
  "timers (loadUsers_settles s) = timers s"
  "next_timer (loadUsers_settles s) = next_timer s"
  "isInitialized (service (loadUsers_settles s)) = isInitialized (service s)"
  "outputs (loadUsers_settles s) =
     (if isInitialized (service s) then outputs s
      else outputs s @ [ConsoleError ''Supabase client not initialized.''])"
  by (simp_all add: loadUsers_settles_def getUsers_def alloc_def)

lemma initializeApp_fields [simp]:
  "isInitialized_st (initializeApp c token s) = isInitialized_st s"
  "isInitialized_cl (initializeApp c token s) = isInitialized_cl s"
  "initTimeout (initializeApp c token s) = initTimeout s"
  "embedded (initializeApp c token s) = embedded s"
  "service (initializeApp c token s) = service s"
  "now (initializeApp c token s) = now s"
  "timers (initializeApp c token s) =
     (if c then timers s
      else timers s @ [\<lparr>timer_id = next_timer s, due = now s + 500, task = InitializeSettles token\<rparr>])"
  "outputs (initializeApp c token s) =
     (if c then outputs s else outputs s @ [CallInitialize token])"
  by (simp_all add: initializeApp_def)

lemma initializeApp_settles_fields [simp]:
  "isInitialized_st (initializeApp_settles token s) = (truthy token \<or> isInitialized_st s)"
  "isInitialized_cl (initializeApp_settles token s) = isInitialized_cl s"
  "initTimeout (initializeApp_settles token s) = initTimeout s"
  "embedded (initializeApp_settles token s) = embedded s"
  "now (initializeApp_settles token s) = now s"
  "isInitialized (service (initializeApp_settles token s)) = (truthy token \<or> isInitialized (service s))"
  "timers (initializeApp_settles token s) =
     (if truthy token
      then timers s @ [\<lparr>timer_id = next_timer s, due = now s + 800, task = GetUsersSettles\<rparr>]
      else timers s)"
  "outputs (initializeApp_settles token s) =
     (if truthy token
      then outputs s @ [ConsoleLog ''Supabase client initialized.'', CallGetUsers]
      else outputs s)"
  by (simp_all add: initializeApp_settles_def initialize_def)

lemma handleMessage_fields [simp]:
  "isInitialized_st (handleMessage d s) = isInitialized_st s"
  "isInitialized_cl (handleMessage d s) = isInitialized_cl s"
  "initTimeout (handleMessage d s) = initTimeout s"
  "embedded (handleMessage d s) = embedded s"
  "service (handleMessage d s) = service s"
  "now (handleMessage d s) = now s"
  "timers (handleMessage d s) =
     (if msg_type d = JStr ''AUTH_TOKEN''
      then filter (\<lambda>t. timer_id t \<noteq> initTimeout s) (timers s)
           @ (if isInitialized_cl s then []
              else [\<lparr>timer_id = next_timer s, due = now s + 500,
                     task = InitializeSettles (msg_token d)\<rparr>])
      else timers s)"
  "outputs (handleMessage d s) =
     (if msg_type d = JStr ''AUTH_TOKEN''
      then outputs s @ [ConsoleLog ''AUTH_TOKEN received from parent app.'']
           @ (if isInitialized_cl s then [] else [CallInitialize (msg_token d)])
      else outputs s)"
  by (simp_all add: handleMessage_def)

lemma initTimeout_fires_fields [simp]:
  "isInitialized_st (initTimeout_fires c s) = isInitialized_st s"
  "isInitialized_cl (initTimeout_fires c s) = isInitialized_cl s"
  "initTimeout (initTimeout_fires c s) = initTimeout s"
  "embedded (initTimeout_fires c s) = embedded s"
  "service (initTimeout_fires c s) = service s"
  "now (initTimeout_fires c s) = now s"
  "timers (initTimeout_fires c s) =
     (if c then timers s
      else timers s @ [\<lparr>timer_id = next_timer s, due = now s + 500,
                        task = InitializeSettles (JStr ''dev-mock-token'')\<rparr>])"
  "outputs (initTimeout_fires c s) =
     (if c then outputs s
      else outputs s @ [fallback_warning, CallInitialize (JStr ''dev-mock-token'')])"
  by (simp_all add: initTimeout_fires_def fallback_warning_def)

lemma handleConfirmDelete_fields [simp]:
  "isInitialized_st (handleConfirmDelete s) = isInitialized_st s"
  "isInitialized_cl (handleConfirmDelete s) = isInitialized_cl s"
  "initTimeout (handleConfirmDelete s) = initTimeout s"
  "embedded (handleConfirmDelete s) = embedded s"
  "service (handleConfirmDelete s) = service s"
  "now (handleConfirmDelete s) = now s"
  "timers (handleConfirmDelete s) =
     (case userToDelete s of None \<Rightarrow> timers s
      | Some u \<Rightarrow> timers s @ [\<lparr>timer_id = next_timer s, due = now s + 600,
                                 task = DeleteUserSettles u\<rparr>])"
  "outputs (handleConfirmDelete s) =
     (case userToDelete s of None \<Rightarrow> outputs s
      | Some u \<Rightarrow> outputs s @ [CallDeleteUser (id_str u)])"
  by (simp_all add: handleConfirmDelete_def split: option.splits)

lemma length_filter_less_iff:
  "(length (filter P xs) < length xs) = (\<exists>x\<in>set xs. \<not> P x)"
proof
  assume l: "length (filter P xs) < length xs"
  show "\<exists>x\<in>set xs. \<not> P x"
  proof (rule ccontr)
    assume "\<not> (\<exists>x\<in>set xs. \<not> P x)"
    then have "filter P xs = xs" by (simp add: filter_id_conv)
    with l show False by simp
  qed
next
  assume "\<exists>x\<in>set xs. \<not> P x"
  then show "length (filter P xs) < length xs" by (auto intro: length_filter_less)
qed

lemma deleteUser_cases:
  "fst (deleteUser userId svc) =
     (if \<not> isInitialized svc then Inl (Error ''Supabase client not initialized.'')
      else if userId \<in> id_str ` set (profiles svc) then Inr ()
      else Inl (Error (''User with ID '' @ userId @ '' not found.'')))"
proof -
  have "(length (filter (\<lambda>p. id_str p \<noteq> userId) (profiles svc)) < length (profiles svc))
        = (userId \<in> id_str ` set (profiles svc))"
    unfolding length_filter_less_iff by auto
  then show ?thesis
    by (simp add: deleteUser_def alloc_def profiles_def Let_def)
qed

lemma deleteUser_isInitialized [simp]:
  "isInitialized (snd (deleteUser userId svc)) = isInitialized svc"
  by (simp add: deleteUser_def alloc_def Let_def)

lemma handleConfirmDelete_settles_fields [simp]:
  "isInitialized_st (handleConfirmDelete_settles u s) = isInitialized_st s"
  "isInitialized_cl (handleConfirmDelete_settles u s) = isInitialized_cl s"
  "initTimeout (handleConfirmDelete_settles u s) = initTimeout s"
  "embedded (handleConfirmDelete_settles u s) = embedded s"
  "now (handleConfirmDelete_settles u s) = now s"
  "isInitialized (service (handleConfirmDelete_settles u s)) = isInitialized (service s)"
  "timers (handleConfirmDelete_settles u s) =
     (case fst (deleteUser (id_str u) (service s)) of
        Inr _ \<Rightarrow> timers s @ [\<lparr>timer_id = next_timer s, due = now s + 800, task = GetUsersSettles\<rparr>]
      | Inl _ \<Rightarrow> timers s)"
  "outputs (handleConfirmDelete_settles u s) =
     (case fst (deleteUser (id_str u) (service s)) of
        Inr _ \<Rightarrow> outputs s @ [ConsoleLog (''User '' @ id_str u @ '' deleted.'')]
                   @ (if embedded s then [PostMessage (USER_DELETED (id_str u))] else [])
                   @ [CallGetUsers]
      | Inl err \<Rightarrow> outputs s @ [ConsoleError (''Failed to delete user: '' @ err_message err)])"
  by (simp_all add: handleConfirmDelete_settles_def Let_def split: prod.splits sum.splits)
     (metis deleteUser_isInitialized snd_conv)+

lemma effect_fields [simp]:
  "isInitialized_st (effect_run (effect_cleanup s)) = isInitialized_st s"
  "isInitialized_cl (effect_run (effect_cleanup s)) = isInitialized_st s"
  "initTimeout (effect_run (effect_cleanup s)) = next_timer s"
  "embedded (effect_run (effect_cleanup s)) = embedded s"
  "service (effect_run (effect_cleanup s)) = service s"
  "now (effect_run (effect_cleanup s)) = now s"
  "timers (effect_run (effect_cleanup s)) =
     filter (\<lambda>t. timer_id t \<noteq> initTimeout s) (timers s)
     @ [\<lparr>timer_id = next_timer s, due = now s + 1500, task = InitTimeout (isInitialized_st s)\<rparr>]"
  "outputs (effect_run (effect_cleanup s)) =
     (if embedded s
      then outputs s @ [ConsoleLog ''App loaded, sending APP_LOADED message to parent.'',
                        PostMessage APP_LOADED]
      else outputs s)"
  by (simp_all add: effect_run_def effect_cleanup_def Let_def case_prod_beta)

lemma commit_same: "isInitialized_st s = isInitialized_cl s \<Longrightarrow> commit s = s"
  by (simp add: commit_def)

lemma commit_changed:
  "isInitialized_st s \<noteq> isInitialized_cl s \<Longrightarrow> commit s = effect_run (effect_cleanup s)"
  by (simp add: commit_def)

lemma commit_fields [simp]:
  "isInitialized_st (commit s) = isInitialized_st s"
  "isInitialized_cl (commit s) = isInitialized_st s"
  "embedded (commit s) = embedded s"
  "service (commit s) = service s"
  "now (commit s) = now s"
  "initTimeout (commit s) =
     (if isInitialized_st s = isInitialized_cl s then initTimeout s else next_timer s)"
  "timers (commit s) =
     (if isInitialized_st s = isInitialized_cl s then timers s
      else filter (\<lambda>t. timer_id t \<noteq> initTimeout s) (timers s)
           @ [\<lparr>timer_id = next_timer s, due = now s + 1500,
               task = InitTimeout (isInitialized_st s)\<rparr>])"
  "outputs (commit s) =
     (if isInitialized_st s = isInitialized_cl s \<or> \<not> embedded s then outputs s
      else outputs s @ [ConsoleLog ''App loaded, sending APP_LOADED message to parent.'',
                        PostMessage APP_LOADED])"
  by (simp_all add: commit_def)

lemma handleDeleteRequest_fields [simp]:
  "isInitialized_st (handleDeleteRequest u s) = isInitialized_st s"
  "isInitialized_cl (handleDeleteRequest u s) = isInitialized_cl s"
  "initTimeout (handleDeleteRequest u s) = initTimeout s"
  "embedded (handleDeleteRequest u s) = embedded s"
  "service (handleDeleteRequest u s) = service s"
  "now (handleDeleteRequest u s) = now s"
  "timers (handleDeleteRequest u s) = timers s"
  "outputs (handleDeleteRequest u s) = outputs s"
  by (simp_all add: handleDeleteRequest_def)

lemma handle_fields [simp]:
  "isInitialized_st (handle x s) = isInitialized_st s"
  "isInitialized_cl (handle x s) = isInitialized_cl s"
  "initTimeout (handle x s) = initTimeout s"
  "embedded (handle x s) = embedded s"
  "service (handle x s) = service s"
  "now (handle x s) = now s"
  by (cases x; simp add: handleDeleteRequest_def)+

lemma handle_timers:
  "timers (handle x s) =
     (case x of
        Message d \<Rightarrow> timers (handleMessage d s)
      | ConfirmDelete \<Rightarrow> timers (handleConfirmDelete s)
      | _ \<Rightarrow> timers s)"
  by (cases x) (simp_all add: handleDeleteRequest_def)

lemma handle_outputs:
  "outputs (handle x s) =
     (case x of
        Message d \<Rightarrow> outputs (handleMessage d s)
      | ConfirmDelete \<Rightarrow> outputs (handleConfirmDelete s)
      | _ \<Rightarrow> outputs s)"
  by (cases x) (simp_all add: handleDeleteRequest_def)

lemma run_task_fields [simp]:
  "isInitialized_cl (run_task k s) = isInitialized_cl s"
  "initTimeout (run_task k s) = initTimeout s"
  "embedded (run_task k s) = embedded s"
  "now (run_task k s) = now s"
  by (cases k; simp)+

lemma step_TimerFires:
  "step TimerFires s = Some s' \<Longrightarrow>
   \<exists>tm. tm \<in> set (timers s) \<and> (\<forall>u\<in>set (timers s). due tm \<le> due u)
      \<and> s' = commit (run_task (task tm)
                 (s\<lparr>timers := remove1 tm (timers s), now := max (now s) (due tm)\<rparr>))"
  by (auto split: option.splits dest: earliest_Some)

lemma step_At:
  "step (At t x) s = Some s' \<Longrightarrow>
   now s \<le> t \<and> (\<forall>u\<in>set (timers s). t \<le> due u) \<and> s' = commit (handle x (s\<lparr>now := t\<rparr>))"
  by (auto split: if_splits simp: list_all_iff)

lemma count_snoc: "count_list (xs @ [x]) y = count_list xs y + (if x = y then 1 else 0)"
  by simp

lemma step_no_fallback:
  assumes "step e s = Some s'" and "no_fallback s"
  shows "no_fallback s' \<and> fallback_count s' = fallback_count s"
proof (cases e)
  case TimerFires
  with assms(1) obtain tm where tm: "tm \<in> set (timers s)"
    and s': "s' = commit (run_task (task tm)
                  (s\<lparr>timers := remove1 tm (timers s), now := max (now s) (due tm)\<rparr>))"
    using step_TimerFires by blast
  have r: "\<And>u. u \<in> set (remove1 tm (timers s)) \<Longrightarrow> task u \<noteq> InitTimeout False"
    using assms(2) by (auto simp: no_fallback_def dest: notin_set_remove1)
  have c: "task tm \<noteq> InitTimeout False" using assms(2) tm by (simp add: no_fallback_def)
  show ?thesis
  proof (cases "task tm")
    case (InitTimeout c')
    with c have "c'" by simp
    with InitTimeout assms(2) r show ?thesis
      unfolding s' by (auto simp: no_fallback_def fallback_count_def)
  next
    case (InitializeSettles token)
    with assms(2) r show ?thesis
      unfolding s' by (auto simp: no_fallback_def fallback_count_def fallback_warning_def)
  next
    case GetUsersSettles
    with assms(2) r show ?thesis
      unfolding s' by (auto simp: no_fallback_def fallback_count_def fallback_warning_def)
  next
    case (DeleteUserSettles u)
    with assms(2) r show ?thesis
      unfolding s' by (auto simp: no_fallback_def fallback_count_def fallback_warning_def
          split: sum.splits)
  qed
next
  case (At t x)
  with assms(1) have s': "s' = commit (handle x (s\<lparr>now := t\<rparr>))" using step_At by blast
  from assms(2) show ?thesis
    unfolding s' by (cases x)
      (auto simp: no_fallback_def fallback_count_def fallback_warning_def handleDeleteRequest_def
            split: option.splits)
qed

lemma map_filter_append [simp]:
  "List.map_filter f (xs @ ys) = List.map_filter f xs @ List.map_filter f ys"
  by (simp add: List.map_filter_def)

lemma run_task_service_isInitialized:
  "isInitialized (service s) \<Longrightarrow> isInitialized (service (run_task k s))"
  by (cases k) simp_all

lemma step_now:
  assumes "step e s = Some s'"
  shows "now s \<le> now s'"
proof (cases e)
  case TimerFires
  with assms obtain tm where
    "s' = commit (run_task (task tm)
            (s\<lparr>timers := remove1 tm (timers s), now := max (now s) (due tm)\<rparr>))"
    using step_TimerFires by blast
  then show ?thesis by simp
next
  case (At t x)
  with assms have "now s \<le> t" "s' = commit (handle x (s\<lparr>now := t\<rparr>))"
    using step_At by blast+
  then show ?thesis by simp
qed

lemma step_waiting:
  assumes "step e s = Some s'" and "waiting s" and "now s \<le> 1500"
    and "\<not> credential_by 1500 e"
  shows "(waiting s' \<and> now s' \<le> 1500)
       \<or> (no_fallback s' \<and> fallback_count s' = 1 \<and> 1500 \<le> now s'
           \<and> initialize_calls s' = [JStr ''dev-mock-token''])"
proof -
  from assms(2) obtain tm0 where f: "filter (\<lambda>tm. \<not> is_delete_timer tm) (timers s) = [tm0]"
    and tm0: "task tm0 = InitTimeout False" "due tm0 = 1500"
    and w: "\<not> isInitialized_st s" "\<not> isInitialized_cl s" "\<not> isInitialized (service s)"
      "fallback_count s = 0" "initialize_calls s = []"
    by (auto simp: waiting_def)
  have sf: "set (filter (\<lambda>tm. \<not> is_delete_timer tm) (timers s)) = {tm0}"
    unfolding f by simp
  have in0: "tm0 \<in> set (timers s)"
    using sf by auto
  have only: "\<And>tm. tm \<in> set (timers s) \<Longrightarrow> \<not> is_delete_timer tm \<Longrightarrow> tm = tm0"
    using sf by auto
  show ?thesis
  proof (cases e)
    case TimerFires
    with assms(1) obtain tm where tm: "tm \<in> set (timers s)" "\<forall>u\<in>set (timers s). due tm \<le> due u"
      and s': "s' = commit (run_task (task tm)
                  (s\<lparr>timers := remove1 tm (timers s), now := max (now s) (due tm)\<rparr>))"
      using step_TimerFires by blast
    from tm in0 tm0 have d: "due tm \<le> 1500" by auto
    show ?thesis
    proof (cases "is_delete_timer tm")
      case True
      then obtain u where u: "task tm = DeleteUserSettles u" by (auto split: task.splits)
      have "filter (\<lambda>tm. \<not> is_delete_timer tm) (remove1 tm (timers s)) = [tm0]"
        using f True tm0 by (auto simp: filter_remove1)
      with u w tm0 d assms(3) have "waiting s' \<and> now s' \<le> 1500"
        unfolding s' by (simp add: waiting_def deleteUser_cases fallback_count_def
            fallback_warning_def initialize_calls_def)
      then show ?thesis ..
    next
      case False
      with tm(1) have "tm = tm0" by (rule only)
      have "filter (\<lambda>tm. \<not> is_delete_timer tm) (remove1 tm0 (timers s)) = []"
        using f by (simp add: filter_remove1)
      then have "\<forall>u\<in>set (remove1 tm0 (timers s)). is_delete_timer u"
        by (simp add: filter_empty_conv)
      then have "\<forall>u\<in>set (remove1 tm0 (timers s)). task u \<noteq> InitTimeout False"
        by auto
      with w tm0 \<open>tm = tm0\<close> have "no_fallback s' \<and> fallback_count s' = 1
           \<and> 1500 \<le> now s' \<and> initialize_calls s' = [JStr ''dev-mock-token'']"
        unfolding s' by (simp add: no_fallback_def fallback_count_def initialize_calls_def
            fallback_warning_def)
      then show ?thesis ..
    qed
  next
    case (At t x)
    with assms(1) have t: "now s \<le> t" "\<forall>u\<in>set (timers s). t \<le> due u"
      and s': "s' = commit (handle x (s\<lparr>now := t\<rparr>))" using step_At by blast+
    from t in0 tm0 have t1500: "t \<le> 1500" by auto
    with assms(4) At have nc: "\<not> is_credential x" by simp
    from w f tm0 t1500 nc have "waiting s' \<and> now s' \<le> 1500"
      unfolding s' by (cases x)
        (auto simp: waiting_def fallback_count_def initialize_calls_def handleDeleteRequest_def
              fallback_warning_def split: option.splits)
    then show ?thesis ..
  qed
qed

lemma run_task_outputs: "prefix (outputs s) (outputs (run_task k s))"
  by (cases k) (auto split: sum.splits)

lemma step_outputs:
  assumes "step e s = Some s'"
  shows "prefix (outputs s) (outputs s')"
proof (cases e)
  case TimerFires
  with assms obtain tm where
    s': "s' = commit (run_task (task tm)
            (s\<lparr>timers := remove1 tm (timers s), now := max (now s) (due tm)\<rparr>))"
    using step_TimerFires by blast
  have "prefix (outputs s) (outputs (run_task (task tm)
            (s\<lparr>timers := remove1 tm (timers s), now := max (now s) (due tm)\<rparr>)))"
    using run_task_outputs [of "s\<lparr>timers := remove1 tm (timers s), now := max (now s) (due tm)\<rparr>"]
    by simp
  then show ?thesis unfolding s' by (auto intro: prefix_order.trans)
next
  case (At t x)
  with assms have s': "s' = commit (handle x (s\<lparr>now := t\<rparr>))"
    using step_At by blast
  show ?thesis unfolding s' by (cases x) (auto simp: handle_outputs split: option.splits)
qed

lemma step_initialize_calls:
  assumes "step e s = Some s'"
  shows "prefix (initialize_calls s) (initialize_calls s')"
proof -
  from step_outputs [OF assms] obtain ys where "outputs s' = outputs s @ ys"
    by (auto simp: prefix_def)
  then show ?thesis by (simp add: initialize_calls_def)
qed

lemma step_no_fallback_calls:
  assumes "step e s = Some s'" and "no_fallback s" and "\<not> any_credential e"
  shows "initialize_calls s' = initialize_calls s"
proof (cases e)
  case TimerFires
  with assms(1) obtain tm where tm: "tm \<in> set (timers s)"
    and s': "s' = commit (run_task (task tm)
                  (s\<lparr>timers := remove1 tm (timers s), now := max (now s) (due tm)\<rparr>))"
    using step_TimerFires by blast
  have c: "task tm \<noteq> InitTimeout False" using assms(2) tm by (simp add: no_fallback_def)
  show ?thesis
  proof (cases "task tm")
    case (InitTimeout c')
    with c have "c'" by simp
    with InitTimeout assms(2) show ?thesis
      unfolding s' by (simp add: no_fallback_def initialize_calls_def)
  next
    case (InitializeSettles token)
    with assms(2) show ?thesis
      unfolding s' by (simp add: no_fallback_def initialize_calls_def)
  next
    case GetUsersSettles
    with assms(2) show ?thesis
      unfolding s' by (simp add: no_fallback_def initialize_calls_def)
  next
    case (DeleteUserSettles u)
    with assms(2) show ?thesis
      unfolding s' by (simp add: no_fallback_def initialize_calls_def split: sum.splits)
  qed
next
  case (At t x)
  with assms(1) have s': "s' = commit (handle x (s\<lparr>now := t\<rparr>))" using step_At by blast
  from assms(3) At have "\<not> is_credential x" by simp
  with assms(2) show ?thesis
    unfolding s' by (cases x)
      (auto simp: no_fallback_def initialize_calls_def handle_outputs split: option.splits)
qed

lemma step_armed:
  assumes "step e s = Some s'" and "armed s"
  shows "armed s' \<or> 1500 \<le> now s'"
proof (cases e)
  case TimerFires
  with assms(1) obtain tm where tm: "tm \<in> set (timers s)"
    and s': "s' = commit (run_task (task tm)
                  (s\<lparr>timers := remove1 tm (timers s), now := max (now s) (due tm)\<rparr>))"
    using step_TimerFires by blast
  have r: "\<And>u. u \<in> set (remove1 tm (timers s)) \<Longrightarrow> task u = InitTimeout False \<Longrightarrow>
             timer_id u = initTimeout s \<and> due u = 1500"
    using assms(2) by (auto simp: armed_def dest: notin_set_remove1)
  show ?thesis
  proof (cases "task tm")
    case (InitTimeout c)
    show ?thesis
    proof (cases c)
      case True
      with InitTimeout assms(2) r have "armed s'"
        unfolding s' by (auto simp: armed_def fallback_count_def)
      then show ?thesis ..
    next
      case False
      with InitTimeout tm assms(2) have "due tm = 1500" by (simp add: armed_def)
      then have "1500 \<le> now s'" unfolding s' by simp
      then show ?thesis ..
    qed
  next
    case (InitializeSettles token)
    with assms(2) r have "armed s'"
      unfolding s' by (auto simp: armed_def fallback_count_def fallback_warning_def)
    then show ?thesis ..
  next
    case GetUsersSettles
    with assms(2) r have "armed s'"
      unfolding s' by (auto simp: armed_def fallback_count_def fallback_warning_def)
    then show ?thesis ..
  next
    case (DeleteUserSettles u)
    with assms(2) r have "armed s'"
      unfolding s' by (auto simp: armed_def fallback_count_def fallback_warning_def
          split: sum.splits)
    then show ?thesis ..
  qed
next
  case (At t x)
  with assms(1) have s': "s' = commit (handle x (s\<lparr>now := t\<rparr>))" using step_At by blast
  from assms(2) have "armed s'"
    unfolding s' by (cases x)
      (auto simp: armed_def fallback_count_def fallback_warning_def handle_outputs handle_timers
            split: option.splits)
  then show ?thesis ..
qed

lemma credential_armed:
  assumes "step (At t x) s = Some s'" and "is_credential x" and "armed s"
  shows "no_fallback s' \<and> fallback_count s' = 0"
proof -
  from assms(1) have s': "s' = commit (handle x (s\<lparr>now := t\<rparr>))" using step_At by blast
  from assms(2) obtain d where x: "x = Message d" "msg_type d = JStr ''AUTH_TOKEN''"
    by (cases x) auto
  from assms(3) x(2) show ?thesis
    unfolding s' x(1)
    by (auto simp: armed_def no_fallback_def fallback_count_def fallback_warning_def)
qed

lemma step_quiet:
  assumes "step e s = Some s'" and "quiet b s" and "\<not> valid_credential e"
  shows "quiet b s' \<or> (b \<and> 1500 \<le> now s')"
proof (cases e)
  case TimerFires
  with assms(1) obtain tm where tm: "tm \<in> set (timers s)"
    and s': "s' = commit (run_task (task tm)
                  (s\<lparr>timers := remove1 tm (timers s), now := max (now s) (due tm)\<rparr>))"
    using step_TimerFires by blast
  let ?ok = "\<lambda>s u. quiet_task b (timer_id u = initTimeout s \<and> due u = 1500) (task u)"
  have r: "\<And>u. u \<in> set (remove1 tm (timers s)) \<Longrightarrow> ?ok s u"
    using assms(2) by (auto simp: quiet_def dest: notin_set_remove1)
  have k: "?ok s tm" using assms(2) tm by (auto simp: quiet_def)
  show ?thesis
  proof (cases "task tm")
    case (InitTimeout c)
    with k have "b" "due tm = 1500" by simp_all
    then have "b \<and> 1500 \<le> now s'" unfolding s' by simp
    then show ?thesis ..
  next
    case (InitializeSettles token)
    with k have "\<not> truthy token" by simp
    with InitializeSettles assms(2) r have "quiet b s'"
      unfolding s' by (auto simp: quiet_def)
    then show ?thesis ..
  next
    case GetUsersSettles
    with k show ?thesis by simp
  next
    case (DeleteUserSettles u)
    with assms(2) r have "quiet b s'"
      unfolding s' by (auto simp: quiet_def deleteUser_cases)
    then show ?thesis ..
  qed
next
  case (At t x)
  with assms(1) have s': "s' = commit (handle x (s\<lparr>now := t\<rparr>))" using step_At by blast
  from assms(3) At have v: "\<And>d. x = Message d \<Longrightarrow> msg_type d = JStr ''AUTH_TOKEN'' \<Longrightarrow> \<not> truthy (msg_token d)"
    by auto
  from assms(2) v have "quiet b s'"
    unfolding s' by (cases x)
      (auto simp: quiet_def split: option.splits)
  then show ?thesis ..
qed

lemma quiet_task_other:
  "quiet_task b (i = j \<and> p) k \<Longrightarrow> i \<noteq> j \<Longrightarrow> quiet_task b' m k"
  by (cases k) auto

lemma credential_quiet:
  assumes "step (At t x) s = Some s'" and "is_credential x" and "quiet b s"
    and "\<not> valid_credential (At t x)"
  shows "quiet False s'"
proof -
  from assms(1) have s': "s' = commit (handle x (s\<lparr>now := t\<rparr>))" using step_At by blast
  from assms(2) obtain d where x: "x = Message d" "msg_type d = JStr ''AUTH_TOKEN''"
    by (cases x) auto
  with assms(4) have "\<not> truthy (msg_token d)" by simp
  with assms(3) x(2) show ?thesis
    unfolding s' x(1) by (auto simp: quiet_def intro: quiet_task_other)
qed

subsection \<open>Runs\<close>

lemma run_Cons:
  "run (e # es) s = Some s' \<Longrightarrow> \<exists>s1. step e s = Some s1 \<and> run es s1 = Some s'"
  by (cases "step e s") simp_all

lemma run_append:
  "run (xs @ ys) s = (case run xs s of None \<Rightarrow> None | Some s1 \<Rightarrow> run ys s1)"
  by (induction xs arbitrary: s) (auto split: option.splits)

lemma run_now: "run evs s = Some s' \<Longrightarrow> now s \<le> now s'"
proof (induction evs arbitrary: s)
  case Nil
  then show ?case by simp
next
  case (Cons e es)
  from run_Cons [OF Cons.prems] obtain s1 where "step e s = Some s1" "run es s1 = Some s'"
    by blast
  with Cons.IH [of s1] step_now [of e s s1] show ?case by simp
qed

lemma run_no_fallback:
  "run evs s = Some s' \<Longrightarrow> no_fallback s \<Longrightarrow>
   no_fallback s' \<and> fallback_count s' = fallback_count s"
proof (induction evs arbitrary: s)
  case Nil
  then show ?case by simp
next
  case (Cons e es)
  from run_Cons [OF Cons.prems(1)] obtain s1 where s1: "step e s = Some s1" "run es s1 = Some s'"
    by blast
  from step_no_fallback [OF s1(1) Cons.prems(2)] Cons.IH [OF s1(2)] show ?case by simp
qed

lemma run_initialize_calls:
  "run evs s = Some s' \<Longrightarrow> prefix (initialize_calls s) (initialize_calls s')"
proof (induction evs arbitrary: s)
  case Nil
  then show ?case by simp
next
  case (Cons e es)
  from run_Cons [OF Cons.prems(1)] obtain s1 where s1: "step e s = Some s1" "run es s1 = Some s'"
    by blast
  from step_initialize_calls [OF s1(1)] Cons.IH [OF s1(2)] show ?case
    by (rule prefix_order.trans)
qed

lemma run_no_fallback_calls:
  "run evs s = Some s' \<Longrightarrow> no_fallback s \<Longrightarrow> \<not> list_ex any_credential evs \<Longrightarrow>
   initialize_calls s' = initialize_calls s"
proof (induction evs arbitrary: s)
  case Nil
  then show ?case by simp
next
  case (Cons e es)
  from run_Cons [OF Cons.prems(1)] obtain s1 where s1: "step e s = Some s1" "run es s1 = Some s'"
    by blast
  from Cons.prems(3) have e: "\<not> any_credential e" "\<not> list_ex any_credential es" by simp_all
  from step_no_fallback [OF s1(1) Cons.prems(2)] have "no_fallback s1" by simp
  from Cons.IH [OF s1(2) this e(2)] step_no_fallback_calls [OF s1(1) Cons.prems(2) e(1)]
  show ?case by simp
qed

lemma step_fired:
  assumes "step e s = Some s'" and "fired s"
  shows "fired s'"
proof -
  from assms have "no_fallback s' \<and> fallback_count s' = 1"
    using step_no_fallback [of e s s'] by (simp add: fired_def)
  moreover from assms have "1500 \<le> now s'"
    using step_now [of e s s'] by (simp add: fired_def)
  moreover from assms have "prefix [JStr ''dev-mock-token''] (initialize_calls s')"
    using step_initialize_calls [of e s s'] by (auto simp: fired_def intro: prefix_order.trans)
  ultimately show ?thesis by (simp add: fired_def)
qed

lemma run_waiting:
  "run evs s = Some s' \<Longrightarrow> \<not> list_ex (credential_by 1500) evs \<Longrightarrow>
   (waiting s \<and> now s \<le> 1500) \<or> fired s \<Longrightarrow>
   (waiting s' \<and> now s' \<le> 1500) \<or> fired s'"
proof (induction evs arbitrary: s)
  case Nil
  then show ?case by simp
next
  case (Cons e es)
  from run_Cons [OF Cons.prems(1)] obtain s1 where s1: "step e s = Some s1" "run es s1 = Some s'"
    by blast
  from Cons.prems(2) have e: "\<not> credential_by 1500 e" "\<not> list_ex (credential_by 1500) es"
    by simp_all
  have "(waiting s1 \<and> now s1 \<le> 1500) \<or> fired s1"
  proof (cases "fired s")
    case True
    with s1(1) show ?thesis by (simp add: step_fired)
  next
    case False
    with Cons.prems(3) have "waiting s" "now s \<le> 1500" by simp_all
    from step_waiting [OF s1(1) this e(1)] show ?thesis by (auto simp: fired_def)
  qed
  with Cons.IH [OF s1(2) e(2)] show ?case by simp
qed

lemma run_waiting_alone:
  "run evs s = Some s' \<Longrightarrow> \<not> list_ex any_credential evs \<Longrightarrow>
   (waiting s \<and> now s \<le> 1500) \<or> (no_fallback s \<and> initialize_calls s = [JStr ''dev-mock-token'']) \<Longrightarrow>
   (waiting s' \<and> now s' \<le> 1500) \<or> (no_fallback s' \<and> initialize_calls s' = [JStr ''dev-mock-token''])"
proof (induction evs arbitrary: s)
  case Nil
  then show ?case by simp
next
  case (Cons e es)
  from run_Cons [OF Cons.prems(1)] obtain s1 where s1: "step e s = Some s1" "run es s1 = Some s'"
    by blast
  from Cons.prems(2) have e: "\<not> any_credential e" "\<not> list_ex any_credential es"
    by simp_all
  then have e': "\<not> credential_by 1500 e" by (cases e) simp_all
  have "(waiting s1 \<and> now s1 \<le> 1500)
        \<or> (no_fallback s1 \<and> initialize_calls s1 = [JStr ''dev-mock-token''])"
  proof (cases "waiting s \<and> now s \<le> 1500")
    case True
    then have "waiting s" "now s \<le> 1500" by simp_all
    from step_waiting [OF s1(1) this e'] show ?thesis by auto
  next
    case False
    with Cons.prems(3) have n: "no_fallback s" "initialize_calls s = [JStr ''dev-mock-token'']"
      by simp_all
    from step_no_fallback [OF s1(1) n(1)] step_no_fallback_calls [OF s1(1) n(1) e(1)] n(2)
    show ?thesis by simp
  qed
  with Cons.IH [OF s1(2) e(2)] show ?case by simp
qed

lemma run_armed:
  "run evs s = Some s' \<Longrightarrow> armed s \<or> 1500 \<le> now s \<Longrightarrow> armed s' \<or> 1500 \<le> now s'"
proof (induction evs arbitrary: s)
  case Nil
  then show ?case by simp
next
  case (Cons e es)
  from run_Cons [OF Cons.prems(1)] obtain s1 where s1: "step e s = Some s1" "run es s1 = Some s'"
    by blast
  have "armed s1 \<or> 1500 \<le> now s1"
    using Cons.prems(2) step_armed [OF s1(1)] step_now [OF s1(1)] by auto
  with Cons.IH [OF s1(2)] show ?case by simp
qed

lemma run_quiet:
  "run evs s = Some s' \<Longrightarrow> \<not> list_ex valid_credential evs \<Longrightarrow>
   quiet b s \<or> (b \<and> 1500 \<le> now s) \<Longrightarrow> quiet b s' \<or> (b \<and> 1500 \<le> now s')"
proof (induction evs arbitrary: s)
  case Nil
  then show ?case by simp
next
  case (Cons e es)
  from run_Cons [OF Cons.prems(1)] obtain s1 where s1: "step e s = Some s1" "run es s1 = Some s'"
    by blast
  from Cons.prems(2) have e: "\<not> valid_credential e" "\<not> list_ex valid_credential es"
    by simp_all
  have "quiet b s1 \<or> (b \<and> 1500 \<le> now s1)"
    using Cons.prems(3) step_quiet [OF s1(1) _ e(1), of b] step_now [OF s1(1)] by auto
  with Cons.IH [OF s1(2) e(2)] show ?case by simp
qed

lemma mount_fields:
  "timers (mount emb uuid) = [\<lparr>timer_id = 0, due = 1500, task = InitTimeout False\<rparr>]"
  "outputs (mount emb uuid) =
     (if emb then [ConsoleLog ''App loaded, sending APP_LOADED message to parent.'',
                   PostMessage APP_LOADED]
      else [])"
  "\<not> isInitialized_st (mount emb uuid)" "\<not> isInitialized_cl (mount emb uuid)"
  "\<not> isInitialized (service (mount emb uuid))"
  "initTimeout (mount emb uuid) = 0" "now (mount emb uuid) = 0"
  by (simp_all add: mount_def alloc_def initial_service_def effect_run_def Let_def
      case_prod_beta)

lemma mount_waiting: "waiting (mount emb uuid)"
  by (simp add: waiting_def mount_fields fallback_count_def initialize_calls_def
      fallback_warning_def)

lemma mount_armed: "armed (mount emb uuid)"
  by (simp add: armed_def mount_fields fallback_count_def fallback_warning_def)

lemma mount_quiet: "quiet True (mount emb uuid)"
  by (simp add: quiet_def mount_fields)

lemma commit_users [simp]: "users (commit s) = users s"
  by (simp add: commit_def effect_run_def effect_cleanup_def Let_def case_prod_beta)

lemma handle_users [simp]: "users (handle x s) = users s"
  by (cases x)
     (simp_all add: handleMessage_def initializeApp_def handleDeleteRequest_def
        handleConfirmDelete_def split: option.splits)

lemma run_task_users:
  "users s < next_addr (service s) \<Longrightarrow> users (run_task k s) < next_addr (service (run_task k s))"
proof (cases k)
  case (InitTimeout c)
  then show "users s < next_addr (service s) \<Longrightarrow> ?thesis"
    by (simp add: initTimeout_fires_def initializeApp_def)
next
  case (InitializeSettles token)
  then show "users s < next_addr (service s) \<Longrightarrow> ?thesis"
    by (simp add: initializeApp_settles_def initialize_def)
next
  case GetUsersSettles
  then show "users s < next_addr (service s) \<Longrightarrow> ?thesis"
    by (simp add: loadUsers_settles_def getUsers_def alloc_def)
next
  case (DeleteUserSettles u)
  then show "users s < next_addr (service s) \<Longrightarrow> ?thesis"
    by (simp add: handleConfirmDelete_settles_def deleteUser_def alloc_def Let_def)
qed

lemma step_allocated:
  assumes "step e s = Some s'" and "allocated s"
  shows "allocated s'"
proof (cases e)
  case TimerFires
  with assms(1) obtain tm where
    s': "s' = commit (run_task (task tm)
                  (s\<lparr>timers := remove1 tm (timers s), now := max (now s) (due tm)\<rparr>))"
    using step_TimerFires by blast
  have "users (s\<lparr>timers := remove1 tm (timers s), now := max (now s) (due tm)\<rparr>)
        < next_addr (service (s\<lparr>timers := remove1 tm (timers s), now := max (now s) (due tm)\<rparr>))"
    using assms(2) by (simp add: allocated_def)
  from run_task_users [OF this] show ?thesis unfolding s' by (simp add: allocated_def)
next
  case (At t x)
  with assms(1) have s': "s' = commit (handle x (s\<lparr>now := t\<rparr>))" using step_At by blast
  show ?thesis unfolding s' using assms(2) by (simp add: allocated_def)
qed

lemma run_allocated: "run evs s = Some s' \<Longrightarrow> allocated s \<Longrightarrow> allocated s'"
proof (induction evs arbitrary: s)
  case Nil
  then show ?case by simp
next
  case (Cons e es)
  from run_Cons [OF Cons.prems(1)] obtain s1 where s1: "step e s = Some s1" "run es s1 = Some s'"
    by blast
  from step_allocated [OF s1(1) Cons.prems(2)] Cons.IH [OF s1(2)] show ?case by simp
qed

lemma mount_allocated: "allocated (mount emb uuid)"
  by (simp add: allocated_def mount_fields)
     (simp add: mount_def alloc_def initial_service_def effect_run_def Let_def case_prod_beta
        setTimeout_def emit_def)

section \<open>The list filter\<close>

lemma includes_str_sublist: "includes_str s t = sublist t s"
  by (induction s) (simp_all add: sublist_Cons_right)

lemma sublist_map_iff:
  "sublist (map f t) (map f n) = (\<exists>before part after. n = before @ part @ after \<and> map f part = map f t)"
proof
  assume "sublist (map f t) (map f n)"
  then obtain ps ss where "map f n = ps @ (map f t @ ss)" by (auto simp: sublist_def)
  then obtain before rest where n: "n = before @ rest" "map f t @ ss = map f rest"
    unfolding map_eq_append_conv [of f n] by blast
  from n(2) [symmetric] obtain part after where "rest = part @ after" "map f t = map f part"
    unfolding map_eq_append_conv [of f rest] by blast
  then have "rest = part @ after" "map f part = map f t" by simp_all
  with n show "\<exists>before part after. n = before @ part @ after \<and> map f part = map f t" by blast
next
  assume "\<exists>before part after. n = before @ part @ after \<and> map f part = map f t"
  then obtain before part after where "n = before @ part @ after" "map f part = map f t" by blast
  then have "map f n = map f before @ map f t @ map f after" by simp
  then show "sublist (map f t) (map f n)" unfolding sublist_def by blast
qed

lemma user_matches_iff: "user_matches tm u = ci_substring_match tm (username u)"
  unfolding user_matches_def ci_substring_match_def includes_str_sublist toLowerCase_def
  by (rule sublist_map_iff)

lemma filteredUsers_eq:
  "filteredUsers s =
     (next_addr (service s),
      s\<lparr>service := (service s)\<lparr>arrays := (arrays (service s))
                      (next_addr (service s) := filter_users (arrays (service s) (users s)) (searchTerm s)),
                    next_addr := Suc (next_addr (service s))\<rparr>\<rparr>)"
  by (simp add: filteredUsers_def alloc_def)

text \<open>
  Claim C7. The filter is a function of the contents of the list and of the search term:
  a profile is kept exactly when some part of its username equals the term up to the
  case of the letters, so the code agrees with the words of the specification. The term
  \<open>ALICE\<close> matches the username \<open>alice@example.com\<close>; with the empty term the result
  equals the input. On the heap, \<open>filteredUsers\<close> returns a new array with the filtered
  contents and leaves the array of \<open>users\<close>, and every other array, as it was.
\<close>

theorem filter_case_insensitive_substring:
  "user_matches tm u = ci_substring_match tm (username u)
   \<and> filter_users us tm = filter (\<lambda>u. ci_substring_match tm (username u)) us
   \<and> user_matches ''ALICE'' \<lparr>id_str = i, username = ''alice@example.com''\<rparr>
   \<and> filter_users us [] = us
   \<and> (users s < next_addr (service s) \<longrightarrow>
        (\<exists>a s'. filteredUsers s = (a, s')
           \<and> arrays (service s') a = filter_users (arrays (service s) (users s)) (searchTerm s)
           \<and> a \<noteq> users s
           \<and> users s' = users s
           \<and> arrays (service s') (users s) = arrays (service s) (users s)
           \<and> (\<forall>b<next_addr (service s). arrays (service s') b = arrays (service s) b)))"
proof -
  have m: "\<And>u. user_matches tm u = ci_substring_match tm (username u)"
    by (rule user_matches_iff)
  have f: "filter_users us tm = filter (\<lambda>u. ci_substring_match tm (username u)) us"
    unfolding filter_users_def by (rule filter_cong) (simp_all add: m)
  have a: "user_matches ''ALICE'' \<lparr>id_str = i, username = ''alice@example.com''\<rparr>"
    unfolding user_matches_def by code_simp
  have "\<And>v. user_matches [] v"
    by (simp add: user_matches_def toLowerCase_def includes_str_sublist)
  then have e: "filter_users us [] = us"
    by (simp add: filter_users_def)
  have h: "users s < next_addr (service s) \<longrightarrow>
        (\<exists>a s'. filteredUsers s = (a, s')
           \<and> arrays (service s') a = filter_users (arrays (service s) (users s)) (searchTerm s)
           \<and> a \<noteq> users s
           \<and> users s' = users s
           \<and> arrays (service s') (users s) = arrays (service s) (users s)
           \<and> (\<forall>b<next_addr (service s). arrays (service s') b = arrays (service s) b))"
    by (simp add: filteredUsers_eq)
  show ?thesis by (intro conjI m f a e h)
qed

theorem filter_case_insensitive_substring_witness:
  "\<exists>s. run searching (mount False example_uuid) = Some s
      \<and> users s < next_addr (service s)
      \<and> map username (arrays (service s) (users s))
          = [''alice@example.com'', ''bob@example.com'', ''charlie@example.com'',
             ''diana@example.com'', ''edward@example.com'']
      \<and> searchTerm s = ''ALICE''
      \<and> (\<exists>a s'. filteredUsers s = (a, s')
           \<and> map username (arrays (service s') a) = [''alice@example.com'']
           \<and> a \<noteq> users s
           \<and> arrays (service s') (users s) = arrays (service s) (users s))"
proof -
  have "case run searching (mount False example_uuid) of
          None \<Rightarrow> False
        | Some s \<Rightarrow> users s < next_addr (service s)
            \<and> map username (arrays (service s) (users s))
                = [''alice@example.com'', ''bob@example.com'', ''charlie@example.com'',
                   ''diana@example.com'', ''edward@example.com'']
            \<and> searchTerm s = ''ALICE''
            \<and> map username (filter_users (arrays (service s) (users s)) (searchTerm s))
                = [''alice@example.com'']"
    unfolding searching_def by code_simp
  then obtain s where s: "run searching (mount False example_uuid) = Some s"
    "users s < next_addr (service s)"
    "map username (arrays (service s) (users s))
       = [''alice@example.com'', ''bob@example.com'', ''charlie@example.com'',
          ''diana@example.com'', ''edward@example.com'']"
    "searchTerm s = ''ALICE''"
    "map username (filter_users (arrays (service s) (users s)) (searchTerm s))
       = [''alice@example.com'']"
    by (auto split: option.splits)
  from filter_case_insensitive_substring [of _ _ _ _ s] s(2)
  obtain a s' where "filteredUsers s = (a, s')"
    "arrays (service s') a = filter_users (arrays (service s) (users s)) (searchTerm s)"
    "a \<noteq> users s" "arrays (service s') (users s) = arrays (service s) (users s)"
    by blast
  with s show ?thesis by auto
qed

section \<open>A deletion that fails\<close>

lemma deleteUser_arrays:
  "a < next_addr svc \<Longrightarrow> arrays (snd (deleteUser userId svc)) a = arrays svc a"
  by (simp add: deleteUser_def alloc_def Let_def)

lemma handleConfirmDelete_settles_failure:
  assumes "fst (deleteUser (id_str u) (service s)) = Inl err"
  shows "handleConfirmDelete_settles u s =
     (emit (ConsoleError (''Failed to delete user: '' @ err_message err))
        (s\<lparr>service := snd (deleteUser (id_str u) (service s)),
          toast := Some \<lparr>toast_message =
                           ''Falha ao deletar usu'' @ [char_of (225 :: nat)] @ ''rio: ''
                             @ err_message err,
                         toast_type = ToastError\<rparr>\<rparr>))
     \<lparr>userToDelete := None\<rparr>"
proof -
  obtain r svc where d: "deleteUser (id_str u) (service s) = (r, svc)"
    by (cases "deleteUser (id_str u) (service s)")
  with assms have "r = Inl err" by simp
  with d show ?thesis by (simp add: handleConfirmDelete_settles_def)
qed

text \<open>
  Claim C9. In any state a run from the mount reaches: when the timer of a confirmed
  deletion fires and \<open>deleteUser\<close> rejects with an error, the turn sets an error toast whose text ends with the message of the error,
  clears \<open>userToDelete\<close>, writes the error to the console and does nothing else: no
  timer is set and \<open>getUsers\<close> is not called, so no refresh follows; \<open>users\<close>, its
  array, the search term, and with them the displayed list are as before, and so are
  the contents of the store.
\<close>

theorem failed_deletion_notice:
  assumes "run evs (mount emb uuid) = Some s"
    and "earliest (timers s) = Some tm" and "task tm = DeleteUserSettles u"
    and "fst (deleteUser (id_str u) (service s)) = Inl err"
  shows "\<exists>s'. step TimerFires s = Some s'
     \<and> toast s' = Some \<lparr>toast_message =
                          ''Falha ao deletar usu'' @ [char_of (225 :: nat)] @ ''rio: '' @ err_message err,
                        toast_type = ToastError\<rparr>
     \<and> userToDelete s' = None
     \<and> timers s' = remove1 tm (timers s)
     \<and> outputs s' = outputs s @ [ConsoleError (''Failed to delete user: '' @ err_message err)]
     \<and> users s' = users s
     \<and> arrays (service s') (users s') = arrays (service s) (users s)
     \<and> displayed s' = displayed s
     \<and> profiles (service s') = profiles (service s)
     \<and> isLoading s' = isLoading s \<and> error s' = error s \<and> searchTerm s' = searchTerm s"
proof -
  from run_allocated [OF assms(1) mount_allocated]
  have al: "isInitialized_st s = isInitialized_cl s" "users s < next_addr (service s)"
    by (simp_all add: allocated_def)
  define s0 where "s0 = s\<lparr>timers := remove1 tm (timers s), now := max (now s) (due tm)\<rparr>"
  define s1 where "s1 = handleConfirmDelete_settles u s0"
  have f: "fst (deleteUser (id_str u) (service s0)) = Inl err"
    using assms(4) by (simp add: s0_def)
  have s1: "s1 = (emit (ConsoleError (''Failed to delete user: '' @ err_message err))
        (s0\<lparr>service := snd (deleteUser (id_str u) (service s0)),
          toast := Some \<lparr>toast_message =
                           ''Falha ao deletar usu'' @ [char_of (225 :: nat)] @ ''rio: ''
                             @ err_message err,
                         toast_type = ToastError\<rparr>\<rparr>))
     \<lparr>userToDelete := None\<rparr>"
    unfolding s1_def by (rule handleConfirmDelete_settles_failure [OF f])
  have c: "commit s1 = s1"
    using al(1) by (simp add: commit_def s1 s0_def)
  have st: "step TimerFires s = Some s1"
    using assms(2,3) c by (simp add: s1_def s0_def)
  have ar: "arrays (service s1) (users s) = arrays (service s) (users s)"
    using al(2) by (simp add: s1 s0_def deleteUser_arrays)
  have pr: "profiles (service s1) = profiles (service s)"
  proof (cases "isInitialized (service s)")
    case True
    from assms(4) True have "id_str u \<notin> id_str ` set (profiles (service s))"
      by (simp add: deleteUser_cases split: if_splits)
    then have "filter (\<lambda>p. id_str p \<noteq> id_str u) (profiles (service s)) = profiles (service s)"
      unfolding filter_id_conv by (metis image_eqI)
    with deleteUser_profiles [OF True, of "id_str u"] show ?thesis
      by (simp add: s1 s0_def)
  next
    case False
    then show ?thesis by (simp add: s1 s0_def deleteUser_def)
  qed
  have "toast s1 = Some \<lparr>toast_message =
                          ''Falha ao deletar usu'' @ [char_of (225 :: nat)] @ ''rio: '' @ err_message err,
                        toast_type = ToastError\<rparr>"
    "userToDelete s1 = None" "timers s1 = remove1 tm (timers s)"
    "outputs s1 = outputs s @ [ConsoleError (''Failed to delete user: '' @ err_message err)]"
    "users s1 = users s" "isLoading s1 = isLoading s" "error s1 = error s"
    "searchTerm s1 = searchTerm s"
    by (simp_all add: s1 s0_def)
  with st ar pr show ?thesis by (simp add: displayed_def)
qed

theorem failed_deletion_notice_witness:
  "\<exists>s tm s'. run twice_confirmed (mount False example_uuid) = Some s
     \<and> earliest (timers s) = Some tm
     \<and> task tm = DeleteUserSettles \<lparr>id_str = ''uuid-x'', username = ''bob@example.com''\<rparr>
     \<and> fst (deleteUser ''uuid-x'' (service s)) = Inl (Error ''User with ID uuid-x not found.'')
     \<and> step TimerFires s = Some s'
     \<and> toast s' = Some \<lparr>toast_message = ''Falha ao deletar usu'' @ [char_of (225 :: nat)]
                            @ ''rio: User with ID uuid-x not found.'',
                        toast_type = ToastError\<rparr>
     \<and> userToDelete s' = None
     \<and> timers s' = remove1 tm (timers s)
     \<and> displayed s' = displayed s"
proof -
  let ?bob = "\<lparr>id_str = ''uuid-x'', username = ''bob@example.com''\<rparr>"
  have "case run twice_confirmed (mount False example_uuid) of
          None \<Rightarrow> False
        | Some s \<Rightarrow>
            (case earliest (timers s) of
               None \<Rightarrow> False
             | Some tm \<Rightarrow> task tm = DeleteUserSettles ?bob)
            \<and> fst (deleteUser (id_str ?bob) (service s))
                = Inl (Error ''User with ID uuid-x not found.'')"
    unfolding twice_confirmed_def by code_simp
  then obtain s tm where s: "run twice_confirmed (mount False example_uuid) = Some s"
    and h1: "earliest (timers s) = Some tm"
    and h2: "task tm = DeleteUserSettles ?bob"
    and h3: "fst (deleteUser (id_str ?bob) (service s))
                = Inl (Error ''User with ID uuid-x not found.'')"
    by (auto split: option.splits)
  from failed_deletion_notice [OF s h1 h2 h3] obtain s' where
    "step TimerFires s = Some s'"
    "toast s' = Some \<lparr>toast_message = ''Falha ao deletar usu'' @ [char_of (225 :: nat)] @ ''rio: ''
                          @ err_message (Error ''User with ID uuid-x not found.''),
                        toast_type = ToastError\<rparr>"
    "userToDelete s' = None" "timers s' = remove1 tm (timers s)" "displayed s' = displayed s"
    by blast
  with s h1 h2 h3 show ?thesis by auto
qed

section \<open>The fallback timer\<close>

text \<open>
  What holds of the fallback in every run of the page from its mount. If no credential
  message arrives by the time 1500, then before 1500 the fallback has not run and
  \<open>initialize\<close> has not been called, and after 1500 the fallback has run exactly once
  and the first call of \<open>initialize\<close> carried \<open>dev-mock-token\<close>; if no credential message
  arrives at all, that call is the only one. If a credential message arrives before
  1500, the fallback never runs, and no live fallback timer is pending from then on.
\<close>

theorem fallback_timer:
  assumes "run evs (mount emb uuid) = Some s"
  shows "(\<not> list_ex (credential_by 1500) evs \<longrightarrow>
            (now s < 1500 \<longrightarrow> fallback_count s = 0 \<and> initialize_calls s = [])
          \<and> (1500 < now s \<longrightarrow>
                fallback_count s = 1
              \<and> prefix [JStr ''dev-mock-token''] (initialize_calls s)))
       \<and> (\<not> list_ex any_credential evs \<and> 1500 < now s \<longrightarrow>
            initialize_calls s = [JStr ''dev-mock-token''])
       \<and> (\<forall>pre t x post. evs = pre @ At t x # post \<and> is_credential x \<and> t < 1500 \<longrightarrow>
            fallback_count s = 0
          \<and> list_all (\<lambda>tm. task tm \<noteq> InitTimeout False) (timers s))"
proof (intro conjI impI allI)
  assume n: "\<not> list_ex (credential_by 1500) evs"
  have w: "(waiting s \<and> now s \<le> 1500) \<or> fired s"
    using run_waiting [OF assms n] mount_waiting [of emb uuid] by (simp add: mount_fields)
  {
    assume "now s < 1500"
    with w have "waiting s" by (auto simp: fired_def)
    then show "fallback_count s = 0" "initialize_calls s = []" by (simp_all add: waiting_def)
  }
  {
    assume "1500 < now s"
    with w have "fired s" by auto
    then show "fallback_count s = 1" "prefix [JStr ''dev-mock-token''] (initialize_calls s)"
      by (simp_all add: fired_def)
  }
next
  assume "\<not> list_ex any_credential evs \<and> 1500 < now s"
  then have n: "\<not> list_ex any_credential evs" and l: "1500 < now s" by simp_all
  have "(waiting s \<and> now s \<le> 1500)
        \<or> (no_fallback s \<and> initialize_calls s = [JStr ''dev-mock-token''])"
    using run_waiting_alone [OF assms n] mount_waiting [of emb uuid] by (simp add: mount_fields)
  with l show "initialize_calls s = [JStr ''dev-mock-token'']" by auto
next
  fix pre t x post
  assume "evs = pre @ At t x # post \<and> is_credential x \<and> t < 1500"
  then have evs: "evs = pre @ At t x # post" and x: "is_credential x" and t: "t < 1500"
    by simp_all
  from assms obtain s1 where s1: "run pre (mount emb uuid) = Some s1"
    and r: "run (At t x # post) s1 = Some s"
    unfolding evs run_append by (auto split: option.splits)
  from run_Cons [OF r] obtain s2 where s2: "step (At t x) s1 = Some s2" "run post s2 = Some s"
    by blast
  from step_At [OF s2(1)] t have "now s1 < 1500" by simp
  with run_armed [OF s1] mount_armed [of emb uuid] have "armed s1" by auto
  from credential_armed [OF s2(1) x this] have "no_fallback s2" "fallback_count s2 = 0"
    by simp_all
  with run_no_fallback [OF s2(2)] have "no_fallback s" "fallback_count s = 0" by simp_all
  then show "fallback_count s = 0" "list_all (\<lambda>tm. task tm \<noteq> InitTimeout False) (timers s)"
    by (simp_all add: no_fallback_def list_all_iff)
qed

theorem fallback_timer_witness:
  "(\<exists>s. run alone (mount True example_uuid) = Some s
        \<and> \<not> list_ex (credential_by 1500) alone \<and> \<not> list_ex any_credential alone
        \<and> 1500 < now s \<and> fallback_count s = 1
        \<and> initialize_calls s = [JStr ''dev-mock-token''])
   \<and> (\<exists>s. run in_time (mount True example_uuid) = Some s
        \<and> in_time = [] @ At 400 (auth_token (JStr ''parent-token'')) # [TimerFires, TimerFires, TimerFires]
        \<and> is_credential (auth_token (JStr ''parent-token''))
        \<and> fallback_count s = 0
        \<and> list_all (\<lambda>tm. task tm \<noteq> InitTimeout False) (timers s))"
proof -
  have "case run alone (mount True example_uuid) of None \<Rightarrow> False | Some s \<Rightarrow> 1500 < now s"
    unfolding alone_def by code_simp
  then obtain s where s: "run alone (mount True example_uuid) = Some s" "1500 < now s"
    by (auto split: option.splits)
  have n: "\<not> list_ex (credential_by 1500) alone" "\<not> list_ex any_credential alone"
    by (simp_all add: alone_def)
  have a: "\<exists>s. run alone (mount True example_uuid) = Some s
        \<and> \<not> list_ex (credential_by 1500) alone \<and> \<not> list_ex any_credential alone
        \<and> 1500 < now s \<and> fallback_count s = 1
        \<and> initialize_calls s = [JStr ''dev-mock-token'']"
    using fallback_timer [OF s(1)] s n by blast
  have "case run in_time (mount True example_uuid) of None \<Rightarrow> False | Some s \<Rightarrow> True"
    unfolding in_time_def by code_simp
  then obtain s' where s': "run in_time (mount True example_uuid) = Some s'"
    by (auto split: option.splits)
  have e: "in_time = [] @ At 400 (auth_token (JStr ''parent-token'')) # [TimerFires, TimerFires, TimerFires]"
    by (simp add: in_time_def)
  have c: "is_credential (auth_token (JStr ''parent-token''))" by (simp add: auth_token_def)
  have l: "(400::nat) < 1500" by simp
  have b: "\<exists>s. run in_time (mount True example_uuid) = Some s
        \<and> in_time = [] @ At 400 (auth_token (JStr ''parent-token'')) # [TimerFires, TimerFires, TimerFires]
        \<and> is_credential (auth_token (JStr ''parent-token''))
        \<and> fallback_count s = 0
        \<and> list_all (\<lambda>tm. task tm \<noteq> InitTimeout False) (timers s)"
    using fallback_timer [OF s'] s' e c l by blast
  from a b show ?thesis by (rule conjI)
qed

text \<open>
  Claim C6. With no credential message within the window, initialization proceeds
  exactly once, with the placeholder. The code does not keep this when the token comes
  late: on the run \<open>late_credential\<close> no credential message arrives by 1500, the
  fallback runs once at 1500, and the token of the parent arrives at 1900, while the
  \<open>initialize\<close> of the fallback is in flight and the closure still holds
  \<open>isInitialized = false\<close>. \<open>initialize\<close> is called a second time, with the token of the
  parent, and the list is fetched twice.
\<close>

theorem fallback_then_late_credential:
  "\<not> list_ex (credential_by 1500) late_credential
   \<and> map_option
        (\<lambda>s. (fallback_count s, initialize_calls s, count_list (outputs s) CallGetUsers))
        (run late_credential (mount True example_uuid))
     = Some (1, [JStr ''dev-mock-token'', JStr ''parent-token''], 2)"
  unfolding late_credential_def by code_simp

section \<open>A missing credential\<close>

text \<open>
  Claim C5, as the code has it. For a token that is empty, \<open>null\<close> or otherwise falsy,
  \<open>initialize\<close> rejects with \<open>Authentication token is missing.\<close> and leaves the service
  as it was; the page then shows \<open>Initialization failed: ...\<close>, stops loading, sets no
  timer and calls nothing. If the message with this token arrives before 1500 and no
  credential message of the run carries a truthy token, then at every later moment the
  service and the page are not initialized, \<open>getUsers\<close> has never been called, and the
  only timers pending are deletions and initializations with a falsy token: the fallback
  timer is gone and nothing retries.
\<close>

theorem missing_credential:
  assumes "\<not> truthy token"
    and "run (pre @ At t (auth_token token) # post) (mount emb uuid) = Some s"
    and "t < 1500"
    and "\<not> list_ex valid_credential (pre @ post)"
  shows "initialize token svc = (Inl (Error ''Authentication token is missing.''), svc)
       \<and> error (initializeApp_settles token a)
           = Some ''Initialization failed: Authentication token is missing.''
       \<and> \<not> isLoading (initializeApp_settles token a)
       \<and> timers (initializeApp_settles token a) = timers a
       \<and> outputs (initializeApp_settles token a) = outputs a
       \<and> \<not> isInitialized (service s) \<and> \<not> isInitialized_st s
       \<and> CallGetUsers \<notin> set (outputs s)
       \<and> (\<forall>tm\<in>set (timers s).
             (\<exists>u. task tm = DeleteUserSettles u)
           \<or> (\<exists>token'. task tm = InitializeSettles token' \<and> \<not> truthy token'))"
proof -
  have i: "initialize token svc = (Inl (Error ''Authentication token is missing.''), svc)"
    using assms(1) by (simp add: initialize_def)
  have a: "error (initializeApp_settles token a)
           = Some ''Initialization failed: Authentication token is missing.''"
    "\<not> isLoading (initializeApp_settles token a)"
    "timers (initializeApp_settles token a) = timers a"
    "outputs (initializeApp_settles token a) = outputs a"
    using assms(1) by (simp_all add: initializeApp_settles_def initialize_def)
  from assms(4) have n: "\<not> list_ex valid_credential pre" "\<not> list_ex valid_credential post"
    by simp_all
  from assms(2) obtain s1 where s1: "run pre (mount emb uuid) = Some s1"
    and r: "run (At t (auth_token token) # post) s1 = Some s"
    unfolding run_append by (auto split: option.splits)
  from run_Cons [OF r] obtain s2 where s2: "step (At t (auth_token token)) s1 = Some s2"
    "run post s2 = Some s"
    by blast
  from step_At [OF s2(1)] assms(3) have "now s1 < 1500" by simp
  with run_quiet [OF s1 n(1), of True] mount_quiet [of emb uuid] have q1: "quiet True s1" by auto
  have c: "is_credential (auth_token token)" "\<not> valid_credential (At t (auth_token token))"
    using assms(1) by (simp_all add: auth_token_def)
  from credential_quiet [OF s2(1) c(1) q1 c(2)] have "quiet False s2" .
  with run_quiet [OF s2(2) n(2), of False] have q: "quiet False s" by simp
  then have s: "\<not> isInitialized (service s)" "\<not> isInitialized_st s"
    "CallGetUsers \<notin> set (outputs s)"
    by (simp_all add: quiet_def)
  have p: "\<forall>tm\<in>set (timers s).
             (\<exists>u. task tm = DeleteUserSettles u)
           \<or> (\<exists>token'. task tm = InitializeSettles token' \<and> \<not> truthy token')"
  proof
    fix tm assume "tm \<in> set (timers s)"
    with q have "quiet_task False (timer_id tm = initTimeout s \<and> due tm = 1500) (task tm)"
      by (simp add: quiet_def)
    then show "(\<exists>u. task tm = DeleteUserSettles u)
           \<or> (\<exists>token'. task tm = InitializeSettles token' \<and> \<not> truthy token')"
      by (cases "task tm") simp_all
  qed
  show ?thesis by (intro conjI i a s p)
qed

theorem missing_credential_witness:
  "\<not> truthy (JStr [])
   \<and> (\<exists>s. run ([] @ At 100 (auth_token (JStr [])) # rejected) (mount True example_uuid) = Some s
        \<and> \<not> list_ex valid_credential ([] @ rejected)
        \<and> \<not> isInitialized (service s) \<and> \<not> isInitialized_st s
        \<and> CallGetUsers \<notin> set (outputs s))"
proof -
  have h1: "\<not> truthy (JStr [])" by simp
  have "case run ([] @ At 100 (auth_token (JStr [])) # rejected) (mount True example_uuid) of
          None \<Rightarrow> False | Some s \<Rightarrow> True"
    unfolding rejected_def by code_simp
  then obtain s where
    h2: "run ([] @ At 100 (auth_token (JStr [])) # rejected) (mount True example_uuid) = Some s"
    by (auto split: option.splits)
  have h3: "(100::nat) < 1500" by simp
  have h4: "\<not> list_ex valid_credential ([] @ rejected)"
    by (simp add: rejected_def auth_token_def)
  from missing_credential [OF h1 h2 h3 h4] h1 h2 h4 show ?thesis by blast
qed

text \<open>
  The failure is not terminal. After the empty token has been rejected and the error is
  on the page, a second message with a token initializes the service; the list is
  fetched and shown, and the error is cleared.
\<close>

theorem missing_credential_not_terminal:
  "map_option (\<lambda>s. (error s, isInitialized (service s), CallGetUsers \<in> set (outputs s)))
     (run [At 100 (auth_token (JStr [])), TimerFires] (mount False example_uuid))
   = Some (Some ''Initialization failed: Authentication token is missing.'', False, False)
   \<and> map_option (\<lambda>s. (error s, isInitialized (service s), CallGetUsers \<in> set (outputs s),
                       map username (arrays (service s) (users s))))
     (run [At 100 (auth_token (JStr [])), TimerFires,
           At 1000 (auth_token (JStr ''parent-token'')), TimerFires, TimerFires]
        (mount False example_uuid))
   = Some (None, True, True,
           [''alice@example.com'', ''bob@example.com'', ''charlie@example.com'',
            ''diana@example.com'', ''edward@example.com''])"
  by code_simp

section \<open>Initialization, at most once\<close>

text \<open>
  Once the flag of the service is set, no turn of the event loop unsets it. Once the
  page has rendered with \<open>isInitialized\<close> set and the effect has run again, a credential
  message only clears the (idle) timer of the effect and writes a line to the console,
  and the timer of the effect does nothing when it fires.
\<close>

lemma gate_never_reverts:
  assumes "step e s = Some s'" and "isInitialized (service s)"
  shows "isInitialized (service s')"
proof (cases e)
  case TimerFires
  with assms(1) obtain tm where
    s': "s' = commit (run_task (task tm)
                  (s\<lparr>timers := remove1 tm (timers s), now := max (now s) (due tm)\<rparr>))"
    using step_TimerFires by blast
  show ?thesis unfolding s' using assms(2) by (simp add: run_task_service_isInitialized)
next
  case (At t x)
  with assms(1) have s': "s' = commit (handle x (s\<lparr>now := t\<rparr>))" using step_At by blast
  show ?thesis unfolding s' using assms(2) by simp
qed

lemma credential_after_ready:
  assumes "step (At t x) s = Some s'" and "is_credential x"
    and "isInitialized_st s" and "isInitialized_cl s"
  shows "s' = s\<lparr>now := t,
                timers := filter (\<lambda>tm. timer_id tm \<noteq> initTimeout s) (timers s),
                outputs := outputs s @ [ConsoleLog ''AUTH_TOKEN received from parent app.'']\<rparr>"
proof -
  from assms(1) have s': "s' = commit (handle x (s\<lparr>now := t\<rparr>))" using step_At by blast
  from assms(2) obtain d where x: "x = Message d" "msg_type d = JStr ''AUTH_TOKEN''"
    by (cases x) auto
  show ?thesis
    unfolding s' x(1) using x(2) assms(3,4)
    by (simp add: commit_def handleMessage_def initializeApp_def clearTimeout_def emit_def)
qed

lemma fallback_after_ready: "run_task (InitTimeout True) s = s"
  by (simp add: initTimeout_fires_def)

text \<open>
  Claim C4. Initialization happens at most once. The code does not keep this while an
  initialization is in flight: on the run below the fallback timer fires at 1500, the
  token of the parent arrives at 1600, before the first \<open>initialize\<close> has settled, and
  the closure still holds \<open>isInitialized = false\<close>. \<open>initialize\<close> is called twice, both
  calls succeed, and the list is fetched twice.
\<close>

theorem double_initialization:
  "map_option outputs
     (run [TimerFires, At 1600 (auth_token (JStr ''parent-token'')), TimerFires, TimerFires]
        (mount False example_uuid))
   = Some [ConsoleWarn ''No token received, initializing in dev mode as a fallback.'',
           CallInitialize (JStr ''dev-mock-token''),
           ConsoleLog ''AUTH_TOKEN received from parent app.'',
           CallInitialize (JStr ''parent-token''),
           ConsoleLog ''Supabase client initialized.'', CallGetUsers,
           ConsoleLog ''Supabase client initialized.'', CallGetUsers]"
  by code_simp

end
